theory Spec2Isabelle
  imports Main "HOL-Library.Multiset" "HOL-Library.Monad_Syntax"
begin

section \<open>The MinQueue of heapify.ts\<close>

text \<open>
  The class \<open>MinQueue\<close> of \<open>src/heapify.ts\<close> is a binary min-heap stored in two typed
  arrays, whose element kinds the constructor takes as its last two arguments.

  A JavaScript number is modelled as NaN, an infinity or an integer; the model covers the
  integers up to \<open>2 ^ 53\<close> in magnitude, which a double holds exactly and JavaScript prints
  in full, and does not tell \<open>-0\<close> from \<open>0\<close>. Numbers with a fractional part are outside
  the model. Array positions and lengths are \<open>nat\<close>; the
  operators \<open>>>> 1\<close> and \<open><< 1\<close> work on 32 bits in JavaScript and agree with halving and
  doubling for the indices that arise while the capacity is below \<open>2 ^ 31\<close>, which is the
  range the model covers.
\<close>

subsection \<open>Numbers\<close>

datatype number = NaN | NegInf | Fin int | PosInf

fun level :: "number \<Rightarrow> nat" where
  "level NaN = 0"
| "level NegInf = 1"
| "level (Fin n) = 2"
| "level PosInf = 3"

fun mag :: "number \<Rightarrow> int" where
  "mag (Fin n) = n"
| "mag x = 0"

text \<open>
  The order \<open>\<le>\<close> on numbers is that of the integers with the two infinities. NaN, which
  JavaScript relates to nothing, is put below \<open>-\<infinity>\<close> to make the order total; the
  JavaScript operators \<open>num_le\<close>, \<open>num_lt\<close> and \<open>num_ge\<close> below test for NaN first.
\<close>

instantiation number :: linorder
begin

definition less_eq_number :: "number \<Rightarrow> number \<Rightarrow> bool" where
  "less_eq_number a b = (level a < level b \<or> (level a = level b \<and> mag a \<le> mag b))"

definition less_number :: "number \<Rightarrow> number \<Rightarrow> bool" where
  "less_number a b = (level a < level b \<or> (level a = level b \<and> mag a < mag b))"

instance
proof
  fix x y z :: number
  show "(x < y) = (x \<le> y \<and> \<not> y \<le> x)"
    by (auto simp: less_eq_number_def less_number_def)
  show "x \<le> x" by (simp add: less_eq_number_def)
  show "x \<le> y \<Longrightarrow> y \<le> z \<Longrightarrow> x \<le> z"
    by (auto simp: less_eq_number_def)
  show "x \<le> y \<Longrightarrow> y \<le> x \<Longrightarrow> x = y"
    by (cases x; cases y) (auto simp: less_eq_number_def)
  show "x \<le> y \<or> y \<le> x"
    by (auto simp: less_eq_number_def)
qed

end

text \<open>The operators \<open><=\<close>, \<open><\<close> and \<open>>=\<close> on numbers: false as soon as one side is NaN.\<close>

definition num_le :: "number \<Rightarrow> number \<Rightarrow> bool" where
  "num_le x y = (x \<noteq> NaN \<and> y \<noteq> NaN \<and> x \<le> y)"

definition num_lt :: "number \<Rightarrow> number \<Rightarrow> bool" where
  "num_lt x y = (x \<noteq> NaN \<and> y \<noteq> NaN \<and> x < y)"

definition num_ge :: "number \<Rightarrow> number \<Rightarrow> bool" where
  "num_ge x y = (x \<noteq> NaN \<and> y \<noteq> NaN \<and> y \<le> x)"

text \<open>What an element read or a \<open>pop\<close> yields: \<open>number | undefined\<close>. In a comparison and
  in a store \<open>undefined\<close> is first converted to a number, which is NaN.\<close>

datatype jsnum = Undefined | Num number

fun ToNumber :: "jsnum \<Rightarrow> number" where
  "ToNumber Undefined = NaN"
| "ToNumber (Num x) = x"

definition js_le :: "jsnum \<Rightarrow> jsnum \<Rightarrow> bool" where
  "js_le a b = num_le (ToNumber a) (ToNumber b)"

definition js_lt :: "jsnum \<Rightarrow> jsnum \<Rightarrow> bool" where
  "js_lt a b = num_lt (ToNumber a) (ToNumber b)"

definition js_ge :: "jsnum \<Rightarrow> jsnum \<Rightarrow> bool" where
  "js_ge a b = num_ge (ToNumber a) (ToNumber b)"

subsection \<open>Typed arrays\<close>

text \<open>The nine kinds of \<open>TypedArray\<close> a \<open>TypedArrayConstructor\<close> can build.\<close>

datatype ArrayType =
    Int8Array | Uint8Array | Uint8ClampedArray | Int16Array | Uint16Array
  | Int32Array | Uint32Array | Float32Array | Float64Array

text \<open>
  The conversion each kind applies on a store. The integer kinds turn NaN and the
  infinities into 0 and wrap modulo \<open>2 ^ w\<close>; the clamped kind saturates; \<open>Float32Array\<close>
  rounds to 24 significant bits, ties to even, and overflows to an infinity;
  \<open>Float64Array\<close> keeps the number.
\<close>

definition ToUintN :: "nat \<Rightarrow> number \<Rightarrow> number" where
  "ToUintN w x = (case x of Fin n \<Rightarrow> Fin (n mod 2 ^ w) | _ \<Rightarrow> Fin 0)"

definition ToIntN :: "nat \<Rightarrow> number \<Rightarrow> number" where
  "ToIntN w x =
     (case x of
        Fin n \<Rightarrow> (let m = n mod 2 ^ w in Fin (if m \<ge> 2 ^ (w - 1) then m - 2 ^ w else m))
      | _ \<Rightarrow> Fin 0)"

definition ToUint8Clamp :: "number \<Rightarrow> number" where
  "ToUint8Clamp x =
     (case x of NaN \<Rightarrow> Fin 0 | NegInf \<Rightarrow> Fin 0 | PosInf \<Rightarrow> Fin 255
      | Fin n \<Rightarrow> Fin (max 0 (min 255 n)))"

text \<open>Rounding a magnitude of 25 bits or more: the bits shifted out so far are remembered
  in \<open>sticky\<close>, the last bit shifted out decides, and a tie goes to the even neighbour.\<close>

function round24 :: "int \<Rightarrow> bool \<Rightarrow> int" where
  "round24 a sticky =
     (if a < 2 ^ 25 then
        (let q = a div 2 in if odd a \<and> (sticky \<or> odd q) then q + 1 else q) * 2
      else 2 * round24 (a div 2) (sticky \<or> odd a))"
  by pat_completeness auto
termination
  by (relation "measure (\<lambda>(a, sticky). nat a)") auto

definition fround :: "number \<Rightarrow> number" where
  "fround x =
     (case x of
        Fin n \<Rightarrow>
          (let a = \<bar>n\<bar>;
               r = (if a < 2 ^ 24 then a else round24 a False)
           in if r \<ge> 2 ^ 128 then (if n < 0 then NegInf else PosInf)
              else Fin (if n < 0 then - r else r))
      | _ \<Rightarrow> x)"

definition store :: "ArrayType \<Rightarrow> jsnum \<Rightarrow> number" where
  "store ty v =
     (let x = ToNumber v in
      case ty of
        Int8Array \<Rightarrow> ToIntN 8 x
      | Uint8Array \<Rightarrow> ToUintN 8 x
      | Uint8ClampedArray \<Rightarrow> ToUint8Clamp x
      | Int16Array \<Rightarrow> ToIntN 16 x
      | Uint16Array \<Rightarrow> ToUintN 16 x
      | Int32Array \<Rightarrow> ToIntN 32 x
      | Uint32Array \<Rightarrow> ToUintN 32 x
      | Float32Array \<Rightarrow> fround x
      | Float64Array \<Rightarrow> x)"

definition ROOT_INDEX :: nat where
  "ROOT_INDEX = 1"

text \<open>\<open>a[i]\<close>: a read outside the array yields \<open>undefined\<close>.\<close>

definition rd :: "number list \<Rightarrow> nat \<Rightarrow> jsnum" where
  "rd a i = (if i < length a then Num (a ! i) else Undefined)"

text \<open>\<open>a[i] = v\<close> on an array of kind \<open>ty\<close>: the value is converted; a write outside the
  array is ignored, as \<open>list_update\<close> does.\<close>

definition wr :: "ArrayType \<Rightarrow> number list \<Rightarrow> nat \<Rightarrow> jsnum \<Rightarrow> number list" where
  "wr ty a i v = a[i := store ty v]"

text \<open>\<open>index >>> 1\<close> and \<open>index << 1\<close>.\<close>

definition shr1 :: "nat \<Rightarrow> nat" where
  "shr1 n = n div 2"

definition shl1 :: "nat \<Rightarrow> nat" where
  "shl1 n = 2 * n"

subsection \<open>The object\<close>

text \<open>
  A field \<open>x\<close> (or \<open>_x\<close>) of \<open>this\<close> is the record field \<open>x'\<close>. A typed array is its kind
  and its contents: \<open>_keys\<close> is \<open>keysType'\<close> with \<open>keys'\<close>, \<open>_priorities\<close> is
  \<open>prioritiesType'\<close> with \<open>priorities'\<close>. The kinds never change.
\<close>

record MinQueue =
  capacity' :: nat
  keysType' :: ArrayType
  keys' :: "number list"
  prioritiesType' :: ArrayType
  priorities' :: "number list"
  length' :: nat
  hasPoppedElement' :: bool

text \<open>The errors thrown, one constructor per \<open>throw\<close> site, and the RangeError of \<open>Array(n)\<close>.\<close>

datatype error =
    KeysPrioritiesMismatch   \<comment> \<open>"Number of keys does not match number of priorities provided."\<close>
  | CapacityLessThanKeys     \<comment> \<open>"Capacity less than number of provided keys."\<close>
  | HeapReachedCapacity      \<comment> \<open>"Heap has reached capacity, can't push new items"\<close>
  | InvalidArrayLength       \<comment> \<open>RangeError: Invalid array length\<close>

subsection \<open>bubbleUp\<close>

function bubbleUp_loop :: "jsnum \<Rightarrow> nat \<Rightarrow> MinQueue \<Rightarrow> nat \<times> MinQueue" where
  "bubbleUp_loop priority index q =
     (if index > ROOT_INDEX then
        let parentIndex = shr1 index in
        if js_le (rd (priorities' q) parentIndex) priority then (index, q)
        else bubbleUp_loop priority parentIndex
               (q\<lparr>keys' := wr (keysType' q) (keys' q) index (rd (keys' q) parentIndex),
                  priorities' := wr (prioritiesType' q) (priorities' q) index
                                   (rd (priorities' q) parentIndex)\<rparr>)
      else (index, q))"
  by pat_completeness auto
termination
  by (relation "measure (\<lambda>(priority, index, q). index)") (auto simp: ROOT_INDEX_def shr1_def)

definition bubbleUp :: "nat \<Rightarrow> MinQueue \<Rightarrow> MinQueue" where
  "bubbleUp index q =
     (let key = rd (keys' q) index;
          priority = rd (priorities' q) index;
          (index, q) = bubbleUp_loop priority index q
      in q\<lparr>keys' := wr (keysType' q) (keys' q) index key,
           priorities' := wr (prioritiesType' q) (priorities' q) index priority\<rparr>)"

subsection \<open>bubbleDown\<close>

text \<open>
  The loop of \<open>bubbleDown\<close> does not end for every index: at index 0 the left child is
  index 0 again. It is a partial function, \<open>None\<close> meaning that the loop runs forever.
\<close>

partial_function (option) bubbleDown_loop ::
  "nat \<Rightarrow> nat \<Rightarrow> jsnum \<Rightarrow> nat \<Rightarrow> MinQueue \<Rightarrow> (nat \<times> MinQueue) option" where
  "bubbleDown_loop halfLength lastIndex priority index q =
     (if index < halfLength then
        let left = shl1 index;
            childPriority = rd (priorities' q) left;
            childKey = rd (keys' q) left;
            childIndex = left;
            right = left + 1;
            (childPriority, childKey, childIndex) =
              (if right < lastIndex then
                 let rightPriority = rd (priorities' q) right in
                 if js_lt rightPriority childPriority
                 then (rightPriority, rd (keys' q) right, right)
                 else (childPriority, childKey, childIndex)
               else (childPriority, childKey, childIndex))
        in if js_ge childPriority priority then Some (index, q)
           else bubbleDown_loop halfLength lastIndex priority childIndex
                  (q\<lparr>keys' := wr (keysType' q) (keys' q) index childKey,
                     priorities' := wr (prioritiesType' q) (priorities' q) index childPriority\<rparr>)
      else Some (index, q))"

declare bubbleDown_loop.simps [code]

definition bubbleDown :: "nat \<Rightarrow> MinQueue \<Rightarrow> MinQueue option" where
  "bubbleDown index q =
     (let key = rd (keys' q) index;
          priority = rd (priorities' q) index;
          halfLength = ROOT_INDEX + shr1 (length' q);
          lastIndex = length' q + ROOT_INDEX
      in do {
        (index, q) \<leftarrow> bubbleDown_loop halfLength lastIndex priority index q;
        Some (q\<lparr>keys' := wr (keysType' q) (keys' q) index key,
                priorities' := wr (prioritiesType' q) (priorities' q) index priority\<rparr>)
      })"

subsection \<open>The constructor\<close>

text \<open>\<open>xs[i]\<close> on the caller's \<open>number[]\<close>: \<open>undefined\<close> outside the array.\<close>

definition arr_get :: "number list \<Rightarrow> nat \<Rightarrow> jsnum" where
  "arr_get xs i = (if i < length xs then Num (xs ! i) else Undefined)"

function copy_loop :: "number list \<Rightarrow> number list \<Rightarrow> nat \<Rightarrow> MinQueue \<Rightarrow> MinQueue" where
  "copy_loop keys priorities i q =
     (if i < length keys then
        copy_loop keys priorities (i + 1)
          (q\<lparr>keys' := wr (keysType' q) (keys' q) (i + ROOT_INDEX) (arr_get keys i),
             priorities' := wr (prioritiesType' q) (priorities' q) (i + ROOT_INDEX)
                              (arr_get priorities i)\<rparr>)
      else q)"
  by pat_completeness auto
termination
  by (relation "measure (\<lambda>(keys, priorities, i, q). length keys - i)") auto

function heapify_loop :: "nat \<Rightarrow> MinQueue \<Rightarrow> MinQueue option" where
  "heapify_loop i q =
     (if i \<ge> ROOT_INDEX then
        (case bubbleDown i q of None \<Rightarrow> None | Some q' \<Rightarrow> heapify_loop (i - 1) q')
      else Some q)"
  by pat_completeness auto
termination
  by (relation "measure (\<lambda>(i, q). i)") (auto simp: ROOT_INDEX_def)

text \<open>
  \<open>new MinQueue(capacity, keys, priorities, KeysBackingArrayType,
  PrioritiesBackingArrayType)\<close>; the defaults are 64, two empty arrays and twice
  \<open>Uint32Array\<close>. A fresh typed array holds zeros.
\<close>

definition constructor ::
  "nat \<Rightarrow> number list \<Rightarrow> number list \<Rightarrow> ArrayType \<Rightarrow> ArrayType \<Rightarrow> (error + MinQueue) option" where
  "constructor capacity keys priorities KeysBackingArrayType PrioritiesBackingArrayType =
     (let q = \<lparr>capacity' = capacity,
               keysType' = KeysBackingArrayType,
               keys' = replicate (capacity + ROOT_INDEX) (Fin 0),
               prioritiesType' = PrioritiesBackingArrayType,
               priorities' = replicate (capacity + ROOT_INDEX) (Fin 0),
               length' = 0,
               hasPoppedElement' = False\<rparr>
      in if length keys \<noteq> length priorities then Some (Inl KeysPrioritiesMismatch)
         else if capacity < length keys then Some (Inl CapacityLessThanKeys)
         else do {
           q \<leftarrow> heapify_loop (shr1 (length keys))
                  ((copy_loop keys priorities 0 q)\<lparr>length' := length keys\<rparr>);
           Some (Inr q)
         })"

subsection \<open>The methods\<close>

definition capacity :: "MinQueue \<Rightarrow> nat" where
  "capacity q = capacity' q"

definition size_q :: "MinQueue \<Rightarrow> nat" where
  "size_q q = length' q"

definition clear :: "MinQueue \<Rightarrow> MinQueue" where
  "clear q = q\<lparr>length' := 0, hasPoppedElement' := False\<rparr>"

definition removePoppedElement :: "MinQueue \<Rightarrow> MinQueue option" where
  "removePoppedElement q =
     (if hasPoppedElement' q then
        let q = q\<lparr>keys' := wr (keysType' q) (keys' q) ROOT_INDEX
                            (rd (keys' q) (length' q + ROOT_INDEX))\<rparr>;
            q = q\<lparr>priorities' := wr (prioritiesType' q) (priorities' q) ROOT_INDEX
                                  (rd (priorities' q) (length' q + ROOT_INDEX))\<rparr>
        in do {
          q \<leftarrow> bubbleDown ROOT_INDEX q;
          Some (q\<lparr>hasPoppedElement' := False\<rparr>)
        }
      else Some q)"

definition push :: "number \<Rightarrow> number \<Rightarrow> MinQueue \<Rightarrow> ((error + unit) \<times> MinQueue) option" where
  "push key priority q =
     (if length' q = capacity' q then Some (Inl HeapReachedCapacity, q)
      else if hasPoppedElement' q then
        let q = q\<lparr>keys' := wr (keysType' q) (keys' q) ROOT_INDEX (Num key)\<rparr>;
            q = q\<lparr>priorities' := wr (prioritiesType' q) (priorities' q) ROOT_INDEX (Num priority)\<rparr>;
            q = q\<lparr>length' := length' q + 1\<rparr>
        in do {
          q \<leftarrow> bubbleDown ROOT_INDEX q;
          Some (Inr (), q\<lparr>hasPoppedElement' := False\<rparr>)
        }
      else
        let pos = length' q + ROOT_INDEX;
            q = q\<lparr>keys' := wr (keysType' q) (keys' q) pos (Num key)\<rparr>;
            q = q\<lparr>priorities' := wr (prioritiesType' q) (priorities' q) pos (Num priority)\<rparr>;
            q = q\<lparr>length' := length' q + 1\<rparr>
        in Some (Inr (), bubbleUp pos q))"

definition pop :: "MinQueue \<Rightarrow> (jsnum \<times> MinQueue) option" where
  "pop q =
     (if length' q = 0 then Some (Undefined, q)
      else do {
        q \<leftarrow> removePoppedElement q;
        let q = q\<lparr>length' := length' q - 1\<rparr>;
        let q = q\<lparr>hasPoppedElement' := True\<rparr>;
        Some (rd (keys' q) ROOT_INDEX, q)
      })"

definition peekPriority :: "MinQueue \<Rightarrow> (jsnum \<times> MinQueue) option" where
  "peekPriority q = do {
     q \<leftarrow> removePoppedElement q;
     Some (rd (priorities' q) ROOT_INDEX, q)
   }"

definition peek :: "MinQueue \<Rightarrow> (jsnum \<times> MinQueue) option" where
  "peek q = do {
     q \<leftarrow> removePoppedElement q;
     Some (rd (keys' q) ROOT_INDEX, q)
   }"

subsection \<open>dumpRawPriorities\<close>

text \<open>
  \<open>Array(n)\<close> throws a RangeError unless \<open>n\<close> is an array length; the fresh array has
  \<open>n\<close> holes, which \<open>join\<close> renders like \<open>undefined\<close>, as the empty string.
\<close>

definition Array :: "int \<Rightarrow> error + jsnum list" where
  "Array n = (if n < 0 \<or> n \<ge> 2 ^ 32 then Inl InvalidArrayLength
              else Inr (replicate (nat n) Undefined))"

text \<open>\<open>result[i] = v\<close> on an ordinary array: a write past the end extends the array.\<close>

definition array_set :: "jsnum list \<Rightarrow> nat \<Rightarrow> jsnum \<Rightarrow> jsnum list" where
  "array_set xs i v =
     (if i < length xs then xs[i := v]
      else xs @ replicate (i - length xs) Undefined @ [v])"

fun digits :: "nat \<Rightarrow> string" where
  "digits n =
     (if n < 10 then [''0123456789'' ! n]
      else digits (n div 10) @ [''0123456789'' ! (n mod 10)])"

text \<open>The string of an array element inside \<open>join\<close>.\<close>

fun elem_string :: "jsnum \<Rightarrow> string" where
  "elem_string Undefined = []"
| "elem_string (Num NaN) = ''NaN''"
| "elem_string (Num PosInf) = ''Infinity''"
| "elem_string (Num NegInf) = ''-Infinity''"
| "elem_string (Num (Fin n)) = (if n < 0 then CHR ''-'' # digits (nat (- n)) else digits (nat n))"

fun join :: "string \<Rightarrow> jsnum list \<Rightarrow> string" where
  "join sep [] = []"
| "join sep [x] = elem_string x"
| "join sep (x # y # ys) = elem_string x @ sep @ join sep (y # ys)"

function dump_loop :: "nat \<Rightarrow> MinQueue \<Rightarrow> jsnum list \<Rightarrow> jsnum list" where
  "dump_loop i q result =
     (if i < length' q then
        dump_loop (i + 1) q (array_set result i (rd (priorities' q) (i + ROOT_INDEX)))
      else result)"
  by pat_completeness auto
termination
  by (relation "measure (\<lambda>(i, q, result). length' q - i)") auto

definition dumpRawPriorities :: "MinQueue \<Rightarrow> ((error + string) \<times> MinQueue) option" where
  "dumpRawPriorities q = do {
     q \<leftarrow> removePoppedElement q;
     case Array (int (length' q) - int ROOT_INDEX) of
       Inl e \<Rightarrow> Some (Inl e, q)
     | Inr result \<Rightarrow> Some (Inr (''['' @ join '' '' (dump_loop 0 q result) @ '']''), q)
   }"

subsection \<open>popPush\<close>

text \<open>
  Modelled from the spec: \<open>popPush\<close> is exercised by the tests but is not a method of the
  class in \<open>src/heapify.ts\<close>. The spec: call \<open>pop\<close>, capturing its result, then
  unconditionally call \<open>push(key, priority)\<close>, then return the captured result. An
  error thrown by \<open>push\<close> reaches the caller in place of the result.
\<close>

definition popPush :: "number \<Rightarrow> number \<Rightarrow> MinQueue \<Rightarrow> ((error + jsnum) \<times> MinQueue) option" where
  "popPush key priority q = do {
     (result, q) \<leftarrow> pop q;
     (r, q) \<leftarrow> push key priority q;
     Some (case r of Inl e \<Rightarrow> Inl e | Inr u \<Rightarrow> Inr result, q)
   }"

subsection \<open>Client loops\<close>

text \<open>
  A caller pushing a list of pairs, one \<open>push\<close> after the other; an exception ends the
  sequence.
\<close>

fun push_all :: "(number \<times> number) list \<Rightarrow> MinQueue \<Rightarrow> ((error + unit) \<times> MinQueue) option" where
  "push_all [] q = Some (Inr (), q)"
| "push_all ((key, priority) # rest) q =
     (case push key priority q of
        None \<Rightarrow> None
      | Some (Inl e, q) \<Rightarrow> Some (Inl e, q)
      | Some (Inr u, q) \<Rightarrow> push_all rest q)"

text \<open>
  A caller emptying the queue: \<open>while (queue.size > 0)\<close>, read \<open>peekPriority()\<close>, then
  \<open>pop()\<close>, and collect the popped key with the priority read just before.
\<close>

partial_function (option) pop_until_empty ::
  "MinQueue \<Rightarrow> ((jsnum \<times> jsnum) list \<times> MinQueue) option" where
  "pop_until_empty q =
     (if size_q q > 0 then do {
        (priority, q) \<leftarrow> peekPriority q;
        (key, q) \<leftarrow> pop q;
        (rest, q) \<leftarrow> pop_until_empty q;
        Some ((key, priority) # rest, q)
      }
      else Some ([], q))"

declare pop_until_empty.simps [code]

section \<open>Specification vocabulary\<close>

text \<open>A typed array holds only values its kind can hold: storing one again gives it back.\<close>

definition typed :: "ArrayType \<Rightarrow> number list \<Rightarrow> bool" where
  "typed ty xs = (\<forall>x \<in> set xs. store ty (Num x) = x)"

text \<open>The shape of the object: two typed arrays of \<open>capacity + 1\<close> slots, a length within
  the capacity, and room for the slot a pending deletion still occupies.\<close>

definition wfq :: "MinQueue \<Rightarrow> bool" where
  "wfq q =
     (length (keys' q) = capacity' q + ROOT_INDEX \<and>
      length (priorities' q) = capacity' q + ROOT_INDEX \<and>
      length' q \<le> capacity' q \<and>
      (hasPoppedElement' q \<longrightarrow> length' q < capacity' q) \<and>
      typed (keysType' q) (keys' q) \<and>
      typed (prioritiesType' q) (priorities' q))"

text \<open>The last occupied position: \<open>length\<close>, or \<open>length + 1\<close> while a deletion is pending.\<close>

definition occupied :: "MinQueue \<Rightarrow> nat" where
  "occupied q = (if hasPoppedElement' q then length' q + 1 else length' q)"

text \<open>Heap order: \<open>priorities[i >>> 1] <= priorities[i]\<close> at every occupied \<open>i\<close> above the root.\<close>

definition heap_ok :: "MinQueue \<Rightarrow> bool" where
  "heap_ok q =
     (\<forall>i \<in> {ROOT_INDEX <.. occupied q}.
        js_le (rd (priorities' q) (shr1 i)) (rd (priorities' q) i))"

text \<open>
  The logical content, as stored (key, priority) pairs in array order: positions
  \<open>1..length\<close>, or \<open>2..length+1\<close> while the root is a pending deletion.
\<close>

definition live_pairs :: "MinQueue \<Rightarrow> (number \<times> number) list" where
  "live_pairs q =
     take (length' q)
       (drop (if hasPoppedElement' q then ROOT_INDEX + 1 else ROOT_INDEX)
         (zip (keys' q) (priorities' q)))"

text \<open>No live priority is NaN.\<close>

definition nan_free :: "MinQueue \<Rightarrow> bool" where
  "nan_free q = (NaN \<notin> snd ` set (live_pairs q))"

text \<open>A pair as the arrays of a queue store it, and a stored pair as a read returns it.\<close>

definition stored_in :: "MinQueue \<Rightarrow> number \<times> number \<Rightarrow> number \<times> number" where
  "stored_in q kp =
     (store (keysType' q) (Num (fst kp)), store (prioritiesType' q) (Num (snd kp)))"

definition as_read :: "number \<times> number \<Rightarrow> jsnum \<times> jsnum" where
  "as_read kp = (Num (fst kp), Num (snd kp))"

text \<open>\<open><=\<close> between the priorities of two popped (key, priority) pairs.\<close>

definition priority_le :: "jsnum \<times> jsnum \<Rightarrow> jsnum \<times> jsnum \<Rightarrow> bool" where
  "priority_le a b = js_le (snd a) (snd b)"

text \<open>
  The states a caller can bring about: a successful construction, then any method call.
  A call that throws also leaves a state behind.
\<close>

inductive reachable :: "MinQueue \<Rightarrow> bool" where
  r_new: "c < 2 ^ 31 \<Longrightarrow> constructor c ks ps kt pt = Some (Inr q) \<Longrightarrow> reachable q"
| r_push: "reachable q \<Longrightarrow> push key priority q = Some (r, q') \<Longrightarrow> reachable q'"
| r_pop: "reachable q \<Longrightarrow> pop q = Some (x, q') \<Longrightarrow> reachable q'"
| r_peek: "reachable q \<Longrightarrow> peek q = Some (x, q') \<Longrightarrow> reachable q'"
| r_peekPriority: "reachable q \<Longrightarrow> peekPriority q = Some (x, q') \<Longrightarrow> reachable q'"
| r_clear: "reachable q \<Longrightarrow> reachable (clear q)"
| r_dump: "reachable q \<Longrightarrow> dumpRawPriorities q = Some (s, q') \<Longrightarrow> reachable q'"

subsection \<open>The algorithm of the spec\<close>

text \<open>
  The spec describes the heap as index-aligned (key, priority) slots, a length and a
  pending flag, and \<open>push\<close> through two primitives working on a held pair.

  Bubble-up(index): while index is not the root and the parent's priority is strictly
  greater than the held priority, copy the parent into index and move index to the
  parent; stop (and write the held pair into the final index) as soon as
  \<open>parentPriority \<le> heldPriority\<close> or the root is reached.
\<close>

function spec_bubble_up ::
  "number \<times> number \<Rightarrow> nat \<Rightarrow> (number \<times> number) list \<Rightarrow> (number \<times> number) list" where
  "spec_bubble_up held index slots =
     (if index \<le> ROOT_INDEX \<or> num_le (snd (slots ! (index div 2))) (snd held)
      then slots[index := held]
      else spec_bubble_up held (index div 2) (slots[index := slots ! (index div 2)]))"
  by pat_completeness auto
termination
  by (relation "measure (\<lambda>(held, index, slots). index)") (auto simp: ROOT_INDEX_def)

text \<open>
  Bubble-down(index): while index has at least one child within the live range, pick the
  child with the smaller priority (left child by default; right child only if it exists
  and its priority is strictly smaller than the left's); if that smallest child's
  priority is still \<open>\<ge>\<close> the held priority, stop; otherwise copy the child up into index
  and continue from the child's position. Stopping writes the held pair into the final
  index, as in bubble-up. Positions start at the root: below it there is no walk.
\<close>

function spec_bubble_down ::
  "number \<times> number \<Rightarrow> nat \<Rightarrow> nat \<Rightarrow> (number \<times> number) list \<Rightarrow> (number \<times> number) list" where
  "spec_bubble_down held len index slots =
     (if index < ROOT_INDEX \<or> len < 2 * index then slots[index := held]
      else
        let left = 2 * index;
            right = left + 1;
            child = (if right \<le> len \<and> num_lt (snd (slots ! right)) (snd (slots ! left))
                     then right else left)
        in if num_ge (snd (slots ! child)) (snd held) then slots[index := held]
           else spec_bubble_down held len child (slots[index := slots ! child]))"
  by pat_completeness auto
termination
  by (relation "measure (\<lambda>(held, len, index, slots). len - index)") (auto simp: ROOT_INDEX_def)

text \<open>
  push: if a pending deletion exists, overwrite the root slot directly with the new pair,
  increment length, bubble-down from the root, clear the pending flag. Otherwise append
  at position \<open>length + 1\<close>, increment length, bubble-up from that position.
\<close>

definition spec_push ::
  "number \<times> number \<Rightarrow> (number \<times> number) list \<times> nat \<times> bool \<Rightarrow>
     (number \<times> number) list \<times> nat \<times> bool" where
  "spec_push new h =
     (case h of (slots, len, pending) \<Rightarrow>
        if pending
        then (spec_bubble_down new (len + 1) ROOT_INDEX (slots[ROOT_INDEX := new]), len + 1, False)
        else (spec_bubble_up new (len + 1) (slots[len + 1 := new]), len + 1, False))"

text \<open>The queue seen that way.\<close>

definition heap_of :: "MinQueue \<Rightarrow> (number \<times> number) list \<times> nat \<times> bool" where
  "heap_of q = (zip (keys' q) (priorities' q), length' q, hasPoppedElement' q)"

subsection \<open>Vocabulary of the proofs\<close>

text \<open>The child a step of \<open>bubbleDown\<close> picks, heap order at one node, heap order of all
  positions up to a bound, positions free of NaN, and the loop invariants.\<close>

definition min_child :: "number list \<Rightarrow> nat \<Rightarrow> nat \<Rightarrow> nat" where
  "min_child P n j =
     (if 2 * j + 1 \<le> n \<and> num_lt (P ! (2 * j + 1)) (P ! (2 * j)) then 2 * j + 1 else 2 * j)"

definition node_ok :: "number list \<Rightarrow> nat \<Rightarrow> nat \<Rightarrow> bool" where
  "node_ok P n k =
     ((2 * k \<le> n \<longrightarrow> P ! k \<le> P ! (2 * k)) \<and> (2 * k + 1 \<le> n \<longrightarrow> P ! k \<le> P ! (2 * k + 1)))"

definition heap_upto :: "number list \<Rightarrow> nat \<Rightarrow> bool" where
  "heap_upto P n = (\<forall>m. 2 \<le> m \<and> m \<le> n \<longrightarrow> P ! (m div 2) \<le> P ! m)"

definition nonan :: "number list \<Rightarrow> nat \<Rightarrow> bool" where
  "nonan P n = (\<forall>m. 1 \<le> m \<and> m \<le> n \<longrightarrow> P ! m \<noteq> NaN)"

definition sift_inv :: "nat \<Rightarrow> nat \<Rightarrow> number \<Rightarrow> nat \<Rightarrow> number list \<Rightarrow> bool" where
  "sift_inv n i p j P =
     ((\<forall>k\<ge>i. (k \<noteq> j \<or> i < j) \<longrightarrow> node_ok P n k) \<and> (i < j \<longrightarrow> P ! (j div 2) \<le> p))"

definition up_inv :: "nat \<Rightarrow> number \<Rightarrow> nat \<Rightarrow> number list \<Rightarrow> bool" where
  "up_inv n p j P =
     ((\<forall>m. 2 \<le> m \<and> m \<le> n \<and> (m \<noteq> j \<or> j < n) \<longrightarrow> P ! (m div 2) \<le> P ! m) \<and>
      (j < n \<longrightarrow> p \<le> P ! j))"

subsection \<open>Example states\<close>

text \<open>Four small states with \<open>Uint32Array\<close> stores: a fresh queue of capacity 2, that
  queue after \<open>push(1, 3)\<close>, after a further \<open>push(2, 5)\<close>, and after one \<open>pop()\<close> more.\<close>

definition example_empty :: MinQueue where
  "example_empty =
     \<lparr>capacity' = 2, keysType' = Uint32Array, keys' = [Fin 0, Fin 0, Fin 0],
      prioritiesType' = Uint32Array, priorities' = [Fin 0, Fin 0, Fin 0], length' = 0,
      hasPoppedElement' = False\<rparr>"

definition example_single :: MinQueue where
  "example_single =
     \<lparr>capacity' = 2, keysType' = Uint32Array, keys' = [Fin 0, Fin 1, Fin 0],
      prioritiesType' = Uint32Array, priorities' = [Fin 0, Fin 3, Fin 0], length' = 1,
      hasPoppedElement' = False\<rparr>"

definition example_full :: MinQueue where
  "example_full =
     \<lparr>capacity' = 2, keysType' = Uint32Array, keys' = [Fin 0, Fin 1, Fin 2],
      prioritiesType' = Uint32Array, priorities' = [Fin 0, Fin 3, Fin 5], length' = 2,
      hasPoppedElement' = False\<rparr>"

definition example_pending :: MinQueue where
  "example_pending =
     \<lparr>capacity' = 2, keysType' = Uint32Array, keys' = [Fin 0, Fin 1, Fin 2],
      prioritiesType' = Uint32Array, priorities' = [Fin 0, Fin 3, Fin 5], length' = 1,
      hasPoppedElement' = True\<rparr>"

text \<open>
  States whose priorities live in a \<open>Float64Array\<close>, which stores NaN as it is.
  \<open>example_float\<close> is \<open>new MinQueue(2, [], [], Uint32Array, Float64Array)\<close> after
  \<open>push(1, 10)\<close>, and \<open>example_float_nan\<close> is that queue after \<open>push(2, NaN)\<close>.
\<close>

definition example_float :: MinQueue where
  "example_float =
     \<lparr>capacity' = 2, keysType' = Uint32Array, keys' = [Fin 0, Fin 1, Fin 0],
      prioritiesType' = Float64Array, priorities' = [Fin 0, Fin 10, Fin 0], length' = 1,
      hasPoppedElement' = False\<rparr>"

definition example_float_nan :: MinQueue where
  "example_float_nan =
     \<lparr>capacity' = 2, keysType' = Uint32Array, keys' = [Fin 0, Fin 2, Fin 1],
      prioritiesType' = Float64Array, priorities' = [Fin 0, NaN, Fin 10], length' = 2,
      hasPoppedElement' = False\<rparr>"

text \<open>
  \<open>example_float8\<close> is \<open>new MinQueue(8, [], [], Uint32Array, Float64Array)\<close>;
  \<open>example_float8_pushed\<close> is that queue after the eight pushes of \<open>example_nan_pushes\<close>,
  \<open>example_nan_popped\<close> lists the keys then popped until the queue is empty, each with
  the priority \<open>peekPriority()\<close> gave just before, and \<open>example_float8_drained\<close> is the
  state left.
\<close>

definition example_float8 :: MinQueue where
  "example_float8 =
     \<lparr>capacity' = 8, keysType' = Uint32Array,
      keys' = [Fin 0, Fin 0, Fin 0, Fin 0, Fin 0, Fin 0, Fin 0, Fin 0, Fin 0],
      prioritiesType' = Float64Array,
      priorities' = [Fin 0, Fin 0, Fin 0, Fin 0, Fin 0, Fin 0, Fin 0, Fin 0, Fin 0],
      length' = 0, hasPoppedElement' = False\<rparr>"

definition example_nan_pushes :: "(number \<times> number) list" where
  "example_nan_pushes =
     [(Fin 1, Fin 10), (Fin 2, Fin 20), (Fin 3, Fin 15), (Fin 4, Fin 40),
      (Fin 5, NaN), (Fin 6, Fin 5), (Fin 7, Fin 50), (Fin 8, Fin 60)]"

definition example_float8_pushed :: MinQueue where
  "example_float8_pushed =
     \<lparr>capacity' = 8, keysType' = Uint32Array,
      keys' = [Fin 0, Fin 6, Fin 1, Fin 7, Fin 4, Fin 2, Fin 3, Fin 5, Fin 8],
      prioritiesType' = Float64Array,
      priorities' = [Fin 0, Fin 5, Fin 10, Fin 50, Fin 40, Fin 20, Fin 15, NaN, Fin 60],
      length' = 8, hasPoppedElement' = False\<rparr>"

definition example_nan_popped :: "(jsnum \<times> jsnum) list" where
  "example_nan_popped =
     [(Num (Fin 6), Num (Fin 5)), (Num (Fin 1), Num (Fin 10)), (Num (Fin 2), Num (Fin 20)),
      (Num (Fin 3), Num (Fin 15)), (Num (Fin 4), Num (Fin 40)), (Num (Fin 5), Num NaN),
      (Num (Fin 7), Num (Fin 50)), (Num (Fin 8), Num (Fin 60))]"

definition example_float8_drained :: MinQueue where
  "example_float8_drained =
     \<lparr>capacity' = 8, keysType' = Uint32Array,
      keys' = [Fin 0, Fin 8, Fin 8, Fin 7, Fin 8, Fin 8, Fin 3, Fin 5, Fin 8],
      prioritiesType' = Float64Array,
      priorities' = [Fin 0, Fin 60, Fin 60, Fin 50, Fin 60, Fin 60, Fin 15, NaN, Fin 60],
      length' = 0, hasPoppedElement' = True\<rparr>"

text \<open>\<open>example_bulk_nan\<close> is
  \<open>new MinQueue(3, [1, 2, 3], [5, NaN, 1], Uint32Array, Float64Array)\<close>.\<close>

definition example_bulk_nan :: MinQueue where
  "example_bulk_nan =
     \<lparr>capacity' = 3, keysType' = Uint32Array, keys' = [Fin 0, Fin 2, Fin 1, Fin 3],
      prioritiesType' = Float64Array, priorities' = [Fin 0, NaN, Fin 5, Fin 1], length' = 3,
      hasPoppedElement' = False\<rparr>"

declare bubbleUp_loop.simps [simp del]
declare copy_loop.simps [simp del]
declare heapify_loop.simps [simp del]
declare dump_loop.simps [simp del]
declare digits.simps [simp del]
declare round24.simps [simp del]
declare spec_bubble_up.simps [simp del]
declare spec_bubble_down.simps [simp del]

section \<open>Numbers and stores\<close>

lemma num_cmp_nonan:
  "x \<noteq> NaN \<Longrightarrow> y \<noteq> NaN \<Longrightarrow> num_le x y = (x \<le> y)"
  "x \<noteq> NaN \<Longrightarrow> y \<noteq> NaN \<Longrightarrow> num_lt x y = (x < y)"
  "x \<noteq> NaN \<Longrightarrow> y \<noteq> NaN \<Longrightarrow> num_ge x y = (y \<le> x)"
  by (simp_all add: num_le_def num_lt_def num_ge_def)

lemma js_cmp_Num [simp]:
  "js_le (Num x) (Num y) = num_le x y"
  "js_lt (Num x) (Num y) = num_lt x y"
  "js_ge (Num x) (Num y) = num_ge x y"
  by (simp_all add: js_le_def js_lt_def js_ge_def)

lemma ToUintN_idem: "ToUintN w (ToUintN w x) = ToUintN w x"
  by (cases x) (simp_all add: ToUintN_def)

lemma ToIntN_idem: "ToIntN w (ToIntN w x) = ToIntN w x"
proof (cases x)
  case (Fin n)
  define m where "m = n mod 2 ^ w"
  have "(m - 2 ^ w) mod 2 ^ w = m" "m mod 2 ^ w = m"
    by (simp_all add: m_def)
  then show ?thesis
    by (simp add: Fin ToIntN_def Let_def m_def [symmetric])
qed (simp_all add: ToIntN_def)

lemma ToUint8Clamp_idem: "ToUint8Clamp (ToUint8Clamp x) = ToUint8Clamp x"
  by (cases x) (simp_all add: ToUint8Clamp_def)

lemma round24_form:
  "2 ^ 24 \<le> a \<Longrightarrow> \<exists>m k. 2 ^ 23 \<le> m \<and> m \<le> 2 ^ 24 \<and> round24 a s = m * 2 ^ (k + 1)"
proof (induction a s rule: round24.induct)
  case (1 a sticky)
  show ?case
  proof (cases "a < 2 ^ 25")
    case True
    define m where "m = (let q = a div 2 in if odd a \<and> (sticky \<or> odd q) then q + 1 else q)"
    have "2 ^ 23 \<le> m" "m \<le> 2 ^ 24" using True "1.prems" by (auto simp: m_def Let_def)
    moreover have "round24 a sticky = m * 2 ^ (0 + 1)"
      using True by (subst round24.simps) (simp add: m_def)
    ultimately show ?thesis by blast
  next
    case False
    then have "2 ^ 24 \<le> a div 2" by simp
    from "1.IH" [OF False this]
    obtain m k where mk: "2 ^ 23 \<le> m" "m \<le> 2 ^ 24"
        "round24 (a div 2) (sticky \<or> odd a) = m * 2 ^ (k + 1)"
      by blast
    have "round24 a sticky = m * 2 ^ (Suc k + 1)"
      using False mk(3) by (subst round24.simps) simp
    with mk(1,2) show ?thesis by blast
  qed
qed

lemma round24_fix:
  "2 ^ 23 \<le> m \<Longrightarrow> m < 2 ^ 24 \<Longrightarrow> round24 (m * 2 ^ (k + 1)) False = m * 2 ^ (k + 1)"
proof (induction k)
  case 0
  then show ?case by (subst round24.simps) simp
next
  case (Suc k)
  have "2 ^ 23 * 4 \<le> m * 2 ^ (Suc k + 1)"
    using Suc.prems(1) by (intro mult_mono) (simp_all add: self_le_power)
  then have big: "\<not> m * 2 ^ (Suc k + 1) < 2 ^ 25" by simp
  have half: "(m * 2 ^ (Suc k + 1)) div 2 = m * 2 ^ (k + 1)" by simp
  show ?case
    using big Suc.IH [OF Suc.prems]
    by (subst round24.simps) (simp only: half if_False, simp)
qed

lemma round24_idem:
  assumes "2 ^ 24 \<le> a"
  shows "round24 (round24 a False) False = round24 a False" and "2 ^ 24 \<le> round24 a False"
proof -
  from round24_form [OF assms, of False]
  obtain m k where mk: "2 ^ 23 \<le> m" "m \<le> 2 ^ 24" "round24 a False = m * 2 ^ (k + 1)"
    by blast
  have "2 ^ 23 * 2 \<le> m * 2 ^ (k + 1)"
    using mk(1) by (intro mult_mono) simp_all
  then show "2 ^ 24 \<le> round24 a False" using mk(3) by simp
  show "round24 (round24 a False) False = round24 a False"
  proof (cases "m = 2 ^ 24")
    case False
    then have "m < 2 ^ 24" using mk(2) by simp
    from round24_fix [OF mk(1) this, of k] mk(3) show ?thesis by simp
  next
    case True
    have "round24 ((2 ^ 23) * 2 ^ (Suc k + 1)) False = (2 ^ 23) * 2 ^ (Suc k + 1)"
      by (rule round24_fix) simp_all
    moreover have "m * 2 ^ (k + 1) = (2 ^ 23) * 2 ^ (Suc k + 1)"
      using True by simp
    ultimately show ?thesis using mk(3) by simp
  qed
qed

lemma fround_idem: "fround (fround x) = fround x"
proof (cases x)
  case (Fin n)
  define a where "a = \<bar>n\<bar>"
  define r where "r = (if a < 2 ^ 24 then a else round24 a False)"
  have r0: "0 \<le> r" "(if r < 2 ^ 24 then r else round24 r False) = r" "r = 0 \<longleftrightarrow> n = 0"
    using round24_idem [of a] by (auto simp: r_def a_def)
  have f: "fround x = (if r \<ge> 2 ^ 128 then (if n < 0 then NegInf else PosInf)
              else Fin (if n < 0 then - r else r))"
    by (simp add: Fin fround_def Let_def a_def r_def)
  show ?thesis
  proof (cases "r \<ge> 2 ^ 128")
    case True
    then show ?thesis by (simp add: f) (simp add: fround_def)
  next
    case False
    let ?y = "if n < 0 then - r else r"
    have y: "\<bar>?y\<bar> = r" "?y < 0 \<longleftrightarrow> n < 0" using r0 by auto
    have "fround (Fin ?y) = Fin ?y"
      unfolding fround_def number.case Let_def y using False r0(2) by simp
    then show ?thesis using False by (simp add: f)
  qed
qed (simp_all add: fround_def)

lemma store_idem: "store ty (Num (store ty v)) = store ty v"
  by (cases ty)
     (simp_all add: store_def ToUintN_idem ToIntN_idem ToUint8Clamp_idem fround_idem)

lemma rd_in: "i < length a \<Longrightarrow> rd a i = Num (a ! i)"
  by (simp add: rd_def)

lemma length_wr [simp]: "length (wr ty a i v) = length a"
  by (simp add: wr_def)

lemma typed_nth: "typed ty a \<Longrightarrow> i < length a \<Longrightarrow> store ty (Num (a ! i)) = a ! i"
  by (simp add: typed_def)

lemma typed_update: "typed ty a \<Longrightarrow> store ty (Num x) = x \<Longrightarrow> typed ty (a[i := x])"
  unfolding typed_def by (metis insertE set_update_subset_insert subsetD)

lemma typed_wr: "typed ty a \<Longrightarrow> typed ty (wr ty a i v)"
  unfolding wr_def by (rule typed_update) (simp_all add: store_idem)

lemma typed_replicate: "typed ty (replicate n (Fin 0))"
  by (cases ty)
     (simp_all add: typed_def store_def ToUintN_def ToIntN_def ToUint8Clamp_def fround_def)

lemma wr_rd: "typed ty a \<Longrightarrow> j < length a \<Longrightarrow> wr ty a i (rd a j) = a[i := a ! j]"
  by (simp add: wr_def rd_in typed_nth)

lemma wr_Num_typed: "typed ty a \<Longrightarrow> j < length a \<Longrightarrow> wr ty a i (Num (a ! j)) = a[i := a ! j]"
  by (simp add: wr_def typed_nth)

section \<open>The loops of bubbleDown and bubbleUp\<close>

lemma bubbleDown_loop_unfold:
  assumes "n < length (keys' q)" "n < length (priorities' q)"
    and "typed (keysType' q) (keys' q)" "typed (prioritiesType' q) (priorities' q)"
  shows "bubbleDown_loop (ROOT_INDEX + shr1 n) (n + ROOT_INDEX) (Num p) j q =
     (if 2 * j \<le> n then
        let c = min_child (priorities' q) n j in
        if num_ge (priorities' q ! c) p then Some (j, q)
        else bubbleDown_loop (ROOT_INDEX + shr1 n) (n + ROOT_INDEX) (Num p) c
               (q\<lparr>keys' := (keys' q)[j := keys' q ! c],
                  priorities' := (priorities' q)[j := priorities' q ! c]\<rparr>)
      else Some (j, q))"
proof (cases "2 * j \<le> n")
  case False
  then have "\<not> j < ROOT_INDEX + shr1 n" by (simp add: ROOT_INDEX_def shr1_def)
  with False show ?thesis by (subst bubbleDown_loop.simps) simp
next
  case True
  then have lt: "j < ROOT_INDEX + shr1 n" by (simp add: ROOT_INDEX_def shr1_def)
  have l: "2 * j < length (keys' q)" "2 * j < length (priorities' q)"
    using True assms by simp_all
  note r = rd_in [OF l(1)] rd_in [OF l(2)]
  note w = wr_Num_typed [OF assms(3) l(1)] wr_Num_typed [OF assms(4) l(2)]
  show ?thesis
  proof (cases "2 * j + 1 \<le> n")
    case False
    then show ?thesis using True lt r w
      by (subst bubbleDown_loop.simps)
         (simp add: shl1_def ROOT_INDEX_def min_child_def Let_def)
  next
    case R: True
    have l': "2 * j + 1 < length (keys' q)" "2 * j + 1 < length (priorities' q)"
      using R assms by simp_all
    note r' = rd_in [OF l'(1)] rd_in [OF l'(2)]
    note w' = wr_Num_typed [OF assms(3) l'(1)] wr_Num_typed [OF assms(4) l'(2)]
    show ?thesis using True R lt r r' w w'
      by (subst bubbleDown_loop.simps)
         (simp add: shl1_def ROOT_INDEX_def min_child_def Let_def)
  qed
qed

lemma min_child_cases:
  "min_child P n j = 2 * j \<or> min_child P n j = 2 * j + 1 \<and> 2 * j + 1 \<le> n"
  by (simp add: min_child_def)

lemma bubbleDown_loop_rule:
  assumes ty: "keysType' q = kt" "prioritiesType' q = pt"
    and len: "length (keys' q) = lk" "length (priorities' q) = lp"
    and tyd: "typed kt (keys' q)" "typed pt (priorities' q)"
    and rng: "n < lk" "n < lp"
    and j: "1 \<le> j"
    and I0: "I j (keys' q) (priorities' q)"
    and step: "\<And>j K P. I j K P \<Longrightarrow> 1 \<le> j \<Longrightarrow> 2 * j \<le> n \<Longrightarrow> length K = lk \<Longrightarrow>
        length P = lp \<Longrightarrow> typed kt K \<Longrightarrow> typed pt P \<Longrightarrow> \<not> num_ge (P ! min_child P n j) p \<Longrightarrow>
        I (min_child P n j) (K[j := K ! min_child P n j]) (P[j := P ! min_child P n j])"
  shows "\<exists>j' K' P'. bubbleDown_loop (ROOT_INDEX + shr1 n) (n + ROOT_INDEX) (Num p) j q =
            Some (j', q\<lparr>keys' := K', priorities' := P'\<rparr>) \<and>
          I j' K' P' \<and> j \<le> j' \<and> length K' = lk \<and> length P' = lp \<and>
          typed kt K' \<and> typed pt P' \<and>
          (2 * j' \<le> n \<longrightarrow> num_ge (P' ! min_child P' n j') p)"
  using ty len tyd j I0
proof (induction "n - j" arbitrary: j q rule: less_induct)
  case less
  have r: "n < length (keys' q)" "n < length (priorities' q)"
    "typed (keysType' q) (keys' q)" "typed (prioritiesType' q) (priorities' q)"
    using less.prems rng by simp_all
  note unf = bubbleDown_loop_unfold [OF r, of p j]
  show ?case
  proof (cases "2 * j \<le> n \<and> \<not> num_ge (priorities' q ! min_child (priorities' q) n j) p")
    case False
    then have "bubbleDown_loop (ROOT_INDEX + shr1 n) (n + ROOT_INDEX) (Num p) j q = Some (j, q)"
      unfolding unf by (auto simp: Let_def)
    then show ?thesis using less.prems False
      by (intro exI[of _ j] exI[of _ "keys' q"] exI[of _ "priorities' q"]) auto
  next
    case True
    let ?c = "min_child (priorities' q) n j"
    let ?q = "q\<lparr>keys' := (keys' q)[j := keys' q ! ?c], priorities' := (priorities' q)[j := priorities' q ! ?c]\<rparr>"
    have c: "j < ?c" "?c \<le> n" using True less.prems(7) min_child_cases [of "priorities' q" n j] by auto
    have cl: "?c < length (keys' q)" "?c < length (priorities' q)" using c r by simp_all
    have eq: "bubbleDown_loop (ROOT_INDEX + shr1 n) (n + ROOT_INDEX) (Num p) j q =
        bubbleDown_loop (ROOT_INDEX + shr1 n) (n + ROOT_INDEX) (Num p) ?c ?q"
      unfolding unf using True by (simp add: Let_def)
    have I': "I ?c (keys' ?q) (priorities' ?q)"
      using step [OF less.prems(8) less.prems(7)] True less.prems(3-6) by simp
    have t': "typed kt (keys' ?q)" "typed pt (priorities' ?q)"
      using less.prems(5,6) cl by (simp_all add: typed_update typed_nth)
    have "n - ?c < n - j" using c by arith
    from less.hyps [OF this, of ?q] I' t' c less.prems
    obtain j' K' P' where r: "bubbleDown_loop (ROOT_INDEX + shr1 n) (n + ROOT_INDEX) (Num p) ?c ?q =
            Some (j', ?q\<lparr>keys' := K', priorities' := P'\<rparr>)"
          "I j' K' P'" "?c \<le> j'" "length K' = lk" "length P' = lp"
          "typed kt K'" "typed pt P'"
          "(2 * j' \<le> n \<longrightarrow> num_ge (P' ! min_child P' n j') p)"
      by auto
    have "?q\<lparr>keys' := K', priorities' := P'\<rparr> = q\<lparr>keys' := K', priorities' := P'\<rparr>" by simp
    with r eq c show ?thesis by (intro exI[of _ j'] exI[of _ K'] exI[of _ P']) auto
  qed
qed

lemma bubbleUp_loop_unfold:
  assumes "j < length (keys' q)" "j < length (priorities' q)"
    and "typed (keysType' q) (keys' q)" "typed (prioritiesType' q) (priorities' q)"
  shows "bubbleUp_loop (Num p) j q =
     (if 1 < j then
        if num_le (priorities' q ! (j div 2)) p then (j, q)
        else bubbleUp_loop (Num p) (j div 2)
               (q\<lparr>keys' := (keys' q)[j := keys' q ! (j div 2)],
                  priorities' := (priorities' q)[j := priorities' q ! (j div 2)]\<rparr>)
      else (j, q))"
proof -
  have l: "j div 2 < length (keys' q)" "j div 2 < length (priorities' q)"
    using assms by simp_all
  note r = rd_in [OF l(1)] rd_in [OF l(2)]
  note w = wr_Num_typed [OF assms(3) l(1)] wr_Num_typed [OF assms(4) l(2)]
  show ?thesis
    by (subst bubbleUp_loop.simps) (simp add: r w ROOT_INDEX_def shr1_def Let_def)
qed

lemma bubbleUp_loop_rule:
  assumes ty: "keysType' q = kt" "prioritiesType' q = pt"
    and len: "length (keys' q) = lk" "length (priorities' q) = lp"
    and tyd: "typed kt (keys' q)" "typed pt (priorities' q)"
    and rng: "j < lk" "j < lp"
    and I0: "I j (keys' q) (priorities' q)"
    and step: "\<And>j K P. I j K P \<Longrightarrow> 1 < j \<Longrightarrow> j < lk \<Longrightarrow> j < lp \<Longrightarrow> length K = lk \<Longrightarrow>
        length P = lp \<Longrightarrow> typed kt K \<Longrightarrow> typed pt P \<Longrightarrow> \<not> num_le (P ! (j div 2)) p \<Longrightarrow>
        I (j div 2) (K[j := K ! (j div 2)]) (P[j := P ! (j div 2)])"
  shows "\<exists>j' K' P'. bubbleUp_loop (Num p) j q = (j', q\<lparr>keys' := K', priorities' := P'\<rparr>) \<and>
          I j' K' P' \<and> j' \<le> j \<and> length K' = lk \<and> length P' = lp \<and>
          typed kt K' \<and> typed pt P' \<and>
          (1 < j' \<longrightarrow> num_le (P' ! (j' div 2)) p)"
  using ty len tyd rng I0
proof (induction j arbitrary: q rule: less_induct)
  case (less j)
  have r: "j < length (keys' q)" "j < length (priorities' q)"
    "typed (keysType' q) (keys' q)" "typed (prioritiesType' q) (priorities' q)"
    using less.prems by simp_all
  note unf = bubbleUp_loop_unfold [OF r, of p]
  show ?case
  proof (cases "1 < j \<and> \<not> num_le (priorities' q ! (j div 2)) p")
    case False
    then have "bubbleUp_loop (Num p) j q = (j, q)"
      unfolding unf by auto
    then show ?thesis using less.prems False
      by (intro exI[of _ j] exI[of _ "keys' q"] exI[of _ "priorities' q"]) auto
  next
    case True
    let ?c = "j div 2"
    let ?q = "q\<lparr>keys' := (keys' q)[j := keys' q ! ?c], priorities' := (priorities' q)[j := priorities' q ! ?c]\<rparr>"
    have c: "?c < j" using True by simp
    have cl: "?c < length (keys' q)" "?c < length (priorities' q)" using r by simp_all
    have eq: "bubbleUp_loop (Num p) j q = bubbleUp_loop (Num p) ?c ?q"
      unfolding unf using True by simp
    have I': "I ?c (keys' ?q) (priorities' ?q)"
      using step [OF less.prems(9)] True less.prems(3-8) by simp
    have t': "typed kt (keys' ?q)" "typed pt (priorities' ?q)"
      using less.prems(5,6) cl by (simp_all add: typed_update typed_nth)
    from less.IH [OF c, of ?q] I' t' c less.prems
    obtain j' K' P' where r: "bubbleUp_loop (Num p) ?c ?q = (j', ?q\<lparr>keys' := K', priorities' := P'\<rparr>)"
          "I j' K' P'" "j' \<le> ?c" "length K' = lk" "length P' = lp"
          "typed kt K'" "typed pt P'"
          "(1 < j' \<longrightarrow> num_le (P' ! (j' div 2)) p)"
      by auto
    have "?q\<lparr>keys' := K', priorities' := P'\<rparr> = q\<lparr>keys' := K', priorities' := P'\<rparr>" by simp
    with r eq c show ?thesis by (intro exI[of _ j'] exI[of _ K'] exI[of _ P']) auto
  qed
qed

section \<open>What bubbleDown does\<close>

lemma min_child_le:
  assumes "nonan P n" "1 \<le> j" "2 * j \<le> n"
  shows "P ! min_child P n j \<le> P ! (2 * j)"
    and "2 * j + 1 \<le> n \<Longrightarrow> P ! min_child P n j \<le> P ! (2 * j + 1)"
    and "P ! min_child P n j \<noteq> NaN"
proof -
  have a: "P ! (2 * j) \<noteq> NaN" using assms by (simp add: nonan_def)
  have b: "P ! (2 * j + 1) \<noteq> NaN" if "2 * j + 1 \<le> n" using that assms by (simp add: nonan_def)
  show "P ! min_child P n j \<le> P ! (2 * j)"
    using a b by (auto simp: min_child_def num_cmp_nonan)
  show "P ! min_child P n j \<le> P ! (2 * j + 1)" if "2 * j + 1 \<le> n"
    using a b that by (auto simp: min_child_def num_cmp_nonan)
  show "P ! min_child P n j \<noteq> NaN"
    using a b by (auto simp: min_child_def)
qed

lemma nonan_update:
  "nonan P n \<Longrightarrow> x \<noteq> NaN \<Longrightarrow> nonan (P[j := x]) n"
  by (cases "j < length P") (auto simp: nonan_def nth_list_update list_update_beyond)

lemma sift_inv_step:
  assumes inv: "sift_inv n i p j P" and nn: "nonan P n"
    and i: "1 \<le> i" "i \<le> j" and j: "2 * j \<le> n" and n: "n < length P"
    and lt: "\<not> p \<le> P ! min_child P n j"
  shows "sift_inv n i p (min_child P n j) (P[j := P ! min_child P n j])"
proof -
  let ?c = "min_child P n j"
  let ?P = "P[j := P ! ?c]"
  have j1: "1 \<le> j" using i by simp
  note mc = min_child_le [OF nn j1 j]
  have c: "?c = 2 * j \<or> ?c = 2 * j + 1 \<and> 2 * j + 1 \<le> n" by (rule min_child_cases)
  have cj: "j < ?c" "?c div 2 = j" "?c \<le> n" using c i j by auto
  have jl: "j < length P" using j n by simp
  have "node_ok ?P n k" if k: "i \<le> k" for k
  proof (cases "k = j")
    case True
    then show ?thesis using jl i mc(1,2)
      by (auto simp: node_ok_def)
  next
    case False
    then have ok: "node_ok P n k" using inv k by (simp add: sift_inv_def)
    show ?thesis
    proof (cases "2 * k = j \<or> 2 * k + 1 = j")
      case False
      with \<open>k \<noteq> j\<close> ok show ?thesis by (auto simp: node_ok_def)
    next
      case True
      then have "i < j" using k i by auto
      then have okj: "node_ok P n j" using inv by (simp add: sift_inv_def)
      then have "P ! j \<le> P ! ?c" using c j by (auto simp: node_ok_def)
      moreover have "P ! k \<le> P ! j" using ok True j by (auto simp: node_ok_def)
      ultimately have "P ! k \<le> P ! ?c" by simp
      with ok True \<open>k \<noteq> j\<close> jl show ?thesis
        by (auto simp: node_ok_def nth_list_update)
    qed
  qed
  moreover have "?P ! (?c div 2) \<le> p" using cj jl lt by simp
  ultimately show ?thesis by (simp add: sift_inv_def)
qed

lemma sift_inv_final:
  assumes inv: "sift_inv n i p j P" and nn: "nonan P n"
    and i: "1 \<le> i" "i \<le> j" and jl: "j < length P"
    and ex: "2 * j \<le> n \<longrightarrow> p \<le> P ! min_child P n j"
    and k: "i \<le> k"
  shows "node_ok (P[j := p]) n k"
proof (cases "k = j")
  case True
  have j1: "1 \<le> j" using i by simp
  have "p \<le> P ! (2 * j)" if "2 * j \<le> n"
    using that ex min_child_le(1) [OF nn j1 that] by simp
  moreover have "p \<le> P ! (2 * j + 1)" if "2 * j + 1 \<le> n"
  proof -
    have "2 * j \<le> n" using that by simp
    from min_child_le(2) [OF nn j1 this that] ex this show ?thesis by simp
  qed
  ultimately show ?thesis using True jl i by (auto simp: node_ok_def)
next
  case False
  then have ok: "node_ok P n k" using inv k by (simp add: sift_inv_def)
  show ?thesis
  proof (cases "2 * k = j \<or> 2 * k + 1 = j")
    case False
    with \<open>k \<noteq> j\<close> ok show ?thesis by (auto simp: node_ok_def)
  next
    case True
    then have "i < j" "j div 2 = k" using k i by auto
    then have "P ! k \<le> p" using inv by (auto simp: sift_inv_def)
    with ok True \<open>k \<noteq> j\<close> jl show ?thesis
      by (auto simp: node_ok_def nth_list_update)
  qed
qed

lemma mset_hole_step:
  assumes "j < length Z" "c < length Z" "j \<noteq> c"
  shows "mset (Z[j := Z ! c, c := x]) = mset (Z[j := x])"
proof -
  let ?Y = "Z[j := x]"
  have a: "?Y[j := ?Y ! c, c := ?Y ! j] = Z[j := Z ! c, c := x]"
    using assms by simp
  have b: "mset (?Y[j := ?Y ! c, c := ?Y ! j]) = mset ?Y"
    by (rule mset_swap) (use assms in simp_all)
  show ?thesis using b unfolding a .
qed

lemma spec_bubble_down_step:
  assumes "1 \<le> j" "2 * j \<le> n" "n < length K" "n < length P"
  shows "spec_bubble_down (k0, p) n j (zip K P) =
           (if num_ge (P ! min_child P n j) p then (zip K P)[j := (k0, p)]
            else spec_bubble_down (k0, p) n (min_child P n j)
                   (zip (K[j := K ! min_child P n j]) (P[j := P ! min_child P n j])))"
proof -
  have l: "2 * j < length K" "2 * j < length P" using assms by simp_all
  show ?thesis
  proof (cases "2 * j + 1 \<le> n")
    case False
    then show ?thesis using assms l
      by (subst spec_bubble_down.simps)
         (simp add: ROOT_INDEX_def min_child_def Let_def zip_update)
  next
    case True
    then have "2 * j + 1 < length K" "2 * j + 1 < length P" using assms by simp_all
    then show ?thesis using assms l True
      by (subst spec_bubble_down.simps)
         (simp add: ROOT_INDEX_def min_child_def Let_def zip_update)
  qed
qed

lemma spec_bubble_down_stop:
  "\<not> 2 * j \<le> n \<Longrightarrow> spec_bubble_down held n j Z = Z[j := held]"
  by (subst spec_bubble_down.simps) simp

lemma bubbleDown_spec:
  assumes ty: "keysType' q = kt" "prioritiesType' q = pt"
    and len: "length (keys' q) = lk" "length (priorities' q) = lp"
    and tyd: "typed kt (keys' q)" "typed pt (priorities' q)"
    and rng: "length' q < lk" "length' q < lp"
    and i: "1 \<le> i" "i < lk" "i < lp"
  shows "\<exists>K' P'. bubbleDown i q = Some (q\<lparr>keys' := K', priorities' := P'\<rparr>) \<and>
     length K' = lk \<and> length P' = lp \<and> typed kt K' \<and> typed pt P' \<and>
     zip K' P' = spec_bubble_down (keys' q ! i, priorities' q ! i) (length' q) i
                   (zip (keys' q) (priorities' q)) \<and>
     mset (zip K' P') = mset (zip (keys' q) (priorities' q)) \<and>
     (\<forall>m. m < i \<or> length' q < m \<longrightarrow> K' ! m = keys' q ! m \<and> P' ! m = priorities' q ! m) \<and>
     (nonan (priorities' q) (length' q) \<and> priorities' q ! i \<noteq> NaN \<and>
      (\<forall>k>i. node_ok (priorities' q) (length' q) k) \<longrightarrow>
        (\<forall>k\<ge>i. node_ok P' (length' q) k) \<and> nonan P' (length' q))"
proof -
  define n where "n = length' q"
  define K0 where "K0 = keys' q"
  define P0 where "P0 = priorities' q"
  define k0 where "k0 = K0 ! i"
  define p where "p = P0 ! i"
  define H where "H = (nonan P0 n \<and> p \<noteq> NaN \<and> (\<forall>k>i. node_ok P0 n k))"
  define R where "R = spec_bubble_down (k0, p) n i (zip K0 P0)"
  define I where "I = (\<lambda>j K P. i \<le> j \<and> (j \<le> n \<or> j = i) \<and>
      (H \<longrightarrow> sift_inv n i p j P \<and> nonan P n) \<and>
      spec_bubble_down (k0, p) n j (zip K P) = R \<and>
      mset (zip (K[j := k0]) (P[j := p])) = mset (zip K0 P0) \<and>
      (\<forall>m. m < i \<or> n < m \<longrightarrow> K ! m = K0 ! m \<and> P ! m = P0 ! m))"
  have I0: "I i (keys' q) (priorities' q)"
    unfolding I_def sift_inv_def H_def R_def K0_def [symmetric] P0_def [symmetric]
    by (simp add: k0_def p_def)
  have step: "I (min_child P n j) (K[j := K ! min_child P n j]) (P[j := P ! min_child P n j])"
    if inv: "I j K P" and j: "1 \<le> j" "2 * j \<le> n" and l: "length K = lk" "length P = lp"
      and lt: "\<not> num_ge (P ! min_child P n j) p" for j K P
  proof -
    let ?c = "min_child P n j"
    have c: "?c = 2 * j \<or> ?c = 2 * j + 1 \<and> 2 * j + 1 \<le> n" by (rule min_child_cases)
    have cj: "j < ?c" "?c \<le> n" "1 \<le> ?c" using c j by auto
    have ij: "i \<le> j" using inv by (simp add: I_def)
    have nl: "n < length P" "n < length K" using l rng by (simp_all add: n_def)
    have a: "H \<longrightarrow> sift_inv n i p ?c (P[j := P ! ?c]) \<and> nonan (P[j := P ! ?c]) n"
    proof
      assume H
      then have s: "sift_inv n i p j P" "nonan P n" "p \<noteq> NaN" using inv by (simp_all add: I_def H_def)
      have cn: "P ! ?c \<noteq> NaN" using s(2) cj by (simp add: nonan_def)
      then have "\<not> p \<le> P ! ?c" using lt s(3) by (simp add: num_cmp_nonan)
      from sift_inv_step [OF s(1,2) i(1) ij j(2) nl(1) this] nonan_update [OF s(2) cn]
      show "sift_inv n i p ?c (P[j := P ! ?c]) \<and> nonan (P[j := P ! ?c]) n" by simp
    qed
    have r: "spec_bubble_down (k0, p) n ?c (zip (K[j := K ! ?c]) (P[j := P ! ?c])) = R"
      using spec_bubble_down_step [OF j nl(2,1), of k0 p] lt inv by (simp add: I_def)
    have "mset ((zip K P)[j := zip K P ! ?c, ?c := (k0, p)]) = mset ((zip K P)[j := (k0, p)])"
      by (rule mset_hole_step) (use cj nl l in simp_all)
    then have b: "mset (zip (K[j := K ! ?c, ?c := k0]) (P[j := P ! ?c, ?c := p])) = mset (zip K0 P0)"
      using inv cj nl by (simp add: I_def zip_update)
    have d: "\<forall>m. m < i \<or> n < m \<longrightarrow> K[j := K ! ?c] ! m = K0 ! m \<and> P[j := P ! ?c] ! m = P0 ! m"
      using inv ij j by (auto simp: I_def nth_list_update)
    show ?thesis unfolding I_def using a r b d ij cj by simp
  qed
  have "\<exists>j' K' P'. bubbleDown_loop (ROOT_INDEX + shr1 n) (n + ROOT_INDEX) (Num p) i q =
            Some (j', q\<lparr>keys' := K', priorities' := P'\<rparr>) \<and>
          I j' K' P' \<and> i \<le> j' \<and> length K' = lk \<and> length P' = lp \<and>
          typed kt K' \<and> typed pt P' \<and>
          (2 * j' \<le> n \<longrightarrow> num_ge (P' ! min_child P' n j') p)"
  proof (rule bubbleDown_loop_rule [where I = I and lk = lk and lp = lp])
    show "keysType' q = kt" "prioritiesType' q = pt" by fact+
    show "length (keys' q) = lk" "length (priorities' q) = lp" by fact+
    show "typed kt (keys' q)" "typed pt (priorities' q)" by fact+
    show "n < lk" "n < lp" using rng by (simp_all add: n_def)
    show "1 \<le> i" by fact
    show "I i (keys' q) (priorities' q)" by fact
  qed (rule step)
  then obtain j' K' P' where r:
      "bubbleDown_loop (ROOT_INDEX + shr1 n) (n + ROOT_INDEX) (Num p) i q =
            Some (j', q\<lparr>keys' := K', priorities' := P'\<rparr>)"
      "I j' K' P'" "i \<le> j'" "length K' = lk" "length P' = lp"
      "typed kt K'" "typed pt P'"
      "2 * j' \<le> n \<longrightarrow> num_ge (P' ! min_child P' n j') p"
    by blast
  have rdk: "rd (keys' q) i = Num k0" and rdp: "rd (priorities' q) i = Num p"
    using i len by (simp_all add: rd_in k0_def p_def K0_def P0_def)
  have sk: "store kt (Num k0) = k0" and sp: "store pt (Num p) = p"
    using typed_nth [OF tyd(1)] typed_nth [OF tyd(2)] i len
    by (simp_all add: k0_def p_def K0_def P0_def)
  have res: "bubbleDown i q = Some (q\<lparr>keys' := K'[j' := k0], priorities' := P'[j' := p]\<rparr>)"
    using r(1) by (simp add: bubbleDown_def rdk rdp n_def [symmetric] wr_def ty sk sp)
  have jl: "j' < length P'" "j' < length K'" using r(2,4,5) i rng by (auto simp: I_def n_def)
  have t: "typed kt (K'[j' := k0])" "typed pt (P'[j' := p])"
    using r(6,7) sk sp by (simp_all add: typed_update)
  have h: "H \<longrightarrow> (\<forall>k\<ge>i. node_ok (P'[j' := p]) n k) \<and> nonan (P'[j' := p]) n"
  proof
    assume H
    then have s: "sift_inv n i p j' P'" "nonan P' n" "p \<noteq> NaN" using r(2) by (simp_all add: I_def H_def)
    have ex: "2 * j' \<le> n \<longrightarrow> p \<le> P' ! min_child P' n j'"
    proof
      assume a: "2 * j' \<le> n"
      have "1 \<le> j'" using i(1) r(3) by simp
      from min_child_le(3) [OF s(2) this a] r(8) a s(3) show "p \<le> P' ! min_child P' n j'"
        by (simp add: num_cmp_nonan)
    qed
    from sift_inv_final [OF s(1,2) i(1) r(3) jl(1) ex] nonan_update [OF s(2,3)]
    show "(\<forall>k\<ge>i. node_ok (P'[j' := p]) n k) \<and> nonan (P'[j' := p]) n" by simp
  qed
  have sd: "zip (K'[j' := k0]) (P'[j' := p]) = R"
  proof (cases "2 * j' \<le> n")
    case True
    have "1 \<le> j'" using i(1) r(3) by simp
    from spec_bubble_down_step [OF this True, of K' P' k0 p] r(2,4,5,8) True rng
    show ?thesis by (simp add: I_def zip_update n_def)
  next
    case False
    from spec_bubble_down_stop [OF this] r(2) show ?thesis by (simp add: I_def zip_update)
  qed
  have m: "mset (zip (K'[j' := k0]) (P'[j' := p])) = mset (zip K0 P0)"
    using r(2) by (simp add: I_def)
  have f: "\<forall>m. m < i \<or> n < m \<longrightarrow> K'[j' := k0] ! m = K0 ! m \<and> P'[j' := p] ! m = P0 ! m"
  proof (intro allI impI)
    fix m
    assume m: "m < i \<or> n < m"
    then have old: "K' ! m = K0 ! m \<and> P' ! m = P0 ! m" using r(2) unfolding I_def by blast
    show "K'[j' := k0] ! m = K0 ! m \<and> P'[j' := p] ! m = P0 ! m"
    proof (cases "m = j'")
      case False
      with old show ?thesis by simp
    next
      case True
      then have "j' = i" using m r(2,3) by (auto simp: I_def)
      with True show ?thesis using i r(4,5) by (simp add: k0_def p_def)
    qed
  qed
  show ?thesis
    apply (rule exI [where x = "K'[j' := k0]"])
    apply (rule exI [where x = "P'[j' := p]"])
    using res h sd m f r(4,5) t
    unfolding H_def R_def n_def K0_def P0_def k0_def p_def
    by simp
qed

section \<open>What bubbleUp does\<close>

lemma up_inv_step:
  assumes inv: "up_inv n p j P" and j: "1 < j" "j \<le> n" "n < length P" and lt: "\<not> P ! (j div 2) \<le> p"
  shows "up_inv n p (j div 2) (P[j := P ! (j div 2)])"
proof -
  let ?P = "P[j := P ! (j div 2)]"
  have jl: "j < length P" "j div 2 \<noteq> j" using j by auto
  have "?P ! (m div 2) \<le> ?P ! m" if m: "2 \<le> m" "m \<le> n" for m
  proof (cases "m = j")
    case True
    then show ?thesis using jl by simp
  next
    case False
    then have old: "P ! (m div 2) \<le> P ! m" using inv m by (simp add: up_inv_def)
    show ?thesis
    proof (cases "m div 2 = j")
      case False
      with \<open>m \<noteq> j\<close> old show ?thesis by simp
    next
      case True
      then have "j < n" using m by auto
      then have "P ! (j div 2) \<le> P ! j" using inv j by (simp add: up_inv_def)
      with old True \<open>m \<noteq> j\<close> jl show ?thesis by simp
    qed
  qed
  moreover have "p \<le> ?P ! (j div 2)" using lt jl by simp
  ultimately show ?thesis by (simp add: up_inv_def)
qed

lemma up_inv_final:
  assumes inv: "up_inv n p j P" and j: "j \<le> n" "n < length P"
    and ex: "1 < j \<longrightarrow> P ! (j div 2) \<le> p"
    and m: "2 \<le> m" "m \<le> n"
  shows "P[j := p] ! (m div 2) \<le> P[j := p] ! m"
proof (cases "m = j")
  case True
  then have "m div 2 \<noteq> j" using m by auto
  with True ex m j show ?thesis by simp
next
  case False
  then have old: "P ! (m div 2) \<le> P ! m" using inv m by (simp add: up_inv_def)
  show ?thesis
  proof (cases "m div 2 = j")
    case False
    with \<open>m \<noteq> j\<close> old show ?thesis by simp
  next
    case True
    then have "j < n" using m by auto
    then have "p \<le> P ! j" using inv by (simp add: up_inv_def)
    with old True \<open>m \<noteq> j\<close> j show ?thesis by simp
  qed
qed

lemma spec_bubble_up_step:
  assumes "1 < j" "j < length K" "j < length P"
  shows "spec_bubble_up (k0, p) j (zip K P) =
           (if num_le (P ! (j div 2)) p then (zip K P)[j := (k0, p)]
            else spec_bubble_up (k0, p) (j div 2)
                   (zip (K[j := K ! (j div 2)]) (P[j := P ! (j div 2)])))"
  using assms
  by (subst spec_bubble_up.simps) (simp add: ROOT_INDEX_def zip_update)

lemma spec_bubble_up_stop:
  "\<not> 1 < j \<Longrightarrow> spec_bubble_up held j Z = Z[j := held]"
  by (subst spec_bubble_up.simps) (simp add: ROOT_INDEX_def)

lemma bubbleUp_spec:
  assumes ty: "keysType' q = kt" "prioritiesType' q = pt"
    and len: "length (keys' q) = lk" "length (priorities' q) = lp"
    and tyd: "typed kt (keys' q)" "typed pt (priorities' q)"
    and pos: "1 \<le> pos" "pos < lk" "pos < lp"
  shows "\<exists>K' P'. bubbleUp pos q = q\<lparr>keys' := K', priorities' := P'\<rparr> \<and>
     length K' = lk \<and> length P' = lp \<and> typed kt K' \<and> typed pt P' \<and>
     zip K' P' = spec_bubble_up (keys' q ! pos, priorities' q ! pos) pos
                   (zip (keys' q) (priorities' q)) \<and>
     mset (zip K' P') = mset (zip (keys' q) (priorities' q)) \<and>
     (\<forall>m. m < 1 \<or> pos < m \<longrightarrow> K' ! m = keys' q ! m \<and> P' ! m = priorities' q ! m) \<and>
     (nonan (priorities' q) pos \<and>
      (\<forall>m. 2 \<le> m \<and> m < pos \<longrightarrow> priorities' q ! (m div 2) \<le> priorities' q ! m) \<longrightarrow>
      (\<forall>m. 2 \<le> m \<and> m \<le> pos \<longrightarrow> P' ! (m div 2) \<le> P' ! m) \<and> nonan P' pos)"
proof -
  define K0 where "K0 = keys' q"
  define P0 where "P0 = priorities' q"
  define k0 where "k0 = K0 ! pos"
  define p where "p = P0 ! pos"
  define H where "H = (nonan P0 pos \<and> (\<forall>m. 2 \<le> m \<and> m < pos \<longrightarrow> P0 ! (m div 2) \<le> P0 ! m))"
  define R where "R = spec_bubble_up (k0, p) pos (zip K0 P0)"
  define I where "I = (\<lambda>j K P. 1 \<le> j \<and> j \<le> pos \<and> (H \<longrightarrow> up_inv pos p j P \<and> nonan P pos) \<and>
      spec_bubble_up (k0, p) j (zip K P) = R \<and>
      mset (zip (K[j := k0]) (P[j := p])) = mset (zip K0 P0) \<and>
      (\<forall>m. m < 1 \<or> pos < m \<longrightarrow> K ! m = K0 ! m \<and> P ! m = P0 ! m))"
  have pn: "H \<Longrightarrow> p \<noteq> NaN" using pos by (simp add: H_def nonan_def p_def)
  have I0: "I pos (keys' q) (priorities' q)"
    unfolding I_def up_inv_def H_def R_def K0_def [symmetric] P0_def [symmetric]
    using pos by (simp add: k0_def p_def)
  have step: "I (j div 2) (K[j := K ! (j div 2)]) (P[j := P ! (j div 2)])"
    if inv: "I j K P" and j: "1 < j" "j < lk" "j < lp" and l: "length K = lk" "length P = lp"
      and lt: "\<not> num_le (P ! (j div 2)) p" for j K P
  proof -
    let ?c = "j div 2"
    have cj: "?c < j" "1 \<le> ?c" "?c \<noteq> j" using j by auto
    have cl: "?c < length (zip K P)" "j < length (zip K P)" using j l by auto
    have jp: "j \<le> pos" using inv by (simp add: I_def)
    have nl: "pos < length P" "pos < length K" using l pos by simp_all
    have a: "H \<longrightarrow> up_inv pos p ?c (P[j := P ! ?c]) \<and> nonan (P[j := P ! ?c]) pos"
    proof
      assume H
      then have s: "up_inv pos p j P" "nonan P pos" using inv by (simp_all add: I_def)
      have cn: "P ! ?c \<noteq> NaN" using s(2) cj jp by (simp add: nonan_def)
      then have "\<not> P ! ?c \<le> p" using lt pn [OF \<open>H\<close>] by (simp add: num_cmp_nonan)
      from up_inv_step [OF s(1) j(1) jp nl(1) this] nonan_update [OF s(2) cn]
      show "up_inv pos p ?c (P[j := P ! ?c]) \<and> nonan (P[j := P ! ?c]) pos" by simp
    qed
    have r: "spec_bubble_up (k0, p) ?c (zip (K[j := K ! ?c]) (P[j := P ! ?c])) = R"
      using spec_bubble_up_step [OF j(1), of K P k0 p] j l lt inv by (simp add: I_def)
    have "mset ((zip K P)[j := zip K P ! ?c, ?c := (k0, p)]) = mset ((zip K P)[j := (k0, p)])"
      by (rule mset_hole_step) (use cj cl in simp_all)
    then have b: "mset (zip (K[j := K ! ?c, ?c := k0]) (P[j := P ! ?c, ?c := p])) = mset (zip K0 P0)"
      using inv cj j l by (simp add: I_def zip_update)
    have d: "\<forall>m. m < 1 \<or> pos < m \<longrightarrow> K[j := K ! ?c] ! m = K0 ! m \<and> P[j := P ! ?c] ! m = P0 ! m"
      using inv jp j by (auto simp: I_def nth_list_update)
    show ?thesis unfolding I_def using a r b d jp cj by simp
  qed
  have "\<exists>j' K' P'. bubbleUp_loop (Num p) pos q = (j', q\<lparr>keys' := K', priorities' := P'\<rparr>) \<and>
          I j' K' P' \<and> j' \<le> pos \<and> length K' = lk \<and> length P' = lp \<and>
          typed kt K' \<and> typed pt P' \<and>
          (1 < j' \<longrightarrow> num_le (P' ! (j' div 2)) p)"
  proof (rule bubbleUp_loop_rule [where I = I and lk = lk and lp = lp])
    show "keysType' q = kt" "prioritiesType' q = pt" by fact+
    show "length (keys' q) = lk" "length (priorities' q) = lp" by fact+
    show "typed kt (keys' q)" "typed pt (priorities' q)" by fact+
    show "pos < lk" "pos < lp" by fact+
    show "I pos (keys' q) (priorities' q)" by fact
  qed (rule step)
  then obtain j' K' P' where r:
      "bubbleUp_loop (Num p) pos q = (j', q\<lparr>keys' := K', priorities' := P'\<rparr>)"
      "I j' K' P'" "j' \<le> pos" "length K' = lk" "length P' = lp"
      "typed kt K'" "typed pt P'"
      "1 < j' \<longrightarrow> num_le (P' ! (j' div 2)) p"
    by blast
  have rdk: "rd (keys' q) pos = Num k0" and rdp: "rd (priorities' q) pos = Num p"
    using pos len by (simp_all add: rd_in k0_def p_def K0_def P0_def)
  have sk: "store kt (Num k0) = k0" and sp: "store pt (Num p) = p"
    using typed_nth [OF tyd(1)] typed_nth [OF tyd(2)] pos len
    by (simp_all add: k0_def p_def K0_def P0_def)
  have res: "bubbleUp pos q = q\<lparr>keys' := K'[j' := k0], priorities' := P'[j' := p]\<rparr>"
    using r(1) by (simp add: bubbleUp_def rdk rdp wr_def ty sk sp)
  have nl: "pos < length P'" "j' < length P'" "j' < length K'" using r(3,4,5) pos by simp_all
  have t: "typed kt (K'[j' := k0])" "typed pt (P'[j' := p])"
    using r(6,7) sk sp by (simp_all add: typed_update)
  have h: "H \<longrightarrow> (\<forall>m. 2 \<le> m \<and> m \<le> pos \<longrightarrow> P'[j' := p] ! (m div 2) \<le> P'[j' := p] ! m) \<and>
             nonan (P'[j' := p]) pos"
  proof
    assume H
    then have s: "up_inv pos p j' P'" "nonan P' pos" using r(2) by (simp_all add: I_def)
    have ex: "1 < j' \<longrightarrow> P' ! (j' div 2) \<le> p"
    proof
      assume a: "1 < j'"
      then have "1 \<le> j' div 2" "j' div 2 \<le> pos" using r(3) by auto
      then have "P' ! (j' div 2) \<noteq> NaN" using s(2) unfolding nonan_def by blast
      with r(8) a pn [OF \<open>H\<close>] show "P' ! (j' div 2) \<le> p" by (simp add: num_cmp_nonan)
    qed
    from up_inv_final [OF s(1) r(3) nl(1) ex] nonan_update [OF s(2) pn [OF \<open>H\<close>]]
    show "(\<forall>m. 2 \<le> m \<and> m \<le> pos \<longrightarrow> P'[j' := p] ! (m div 2) \<le> P'[j' := p] ! m) \<and>
             nonan (P'[j' := p]) pos" by simp
  qed
  have sd: "zip (K'[j' := k0]) (P'[j' := p]) = R"
  proof (cases "1 < j'")
    case True
    from spec_bubble_up_step [OF True nl(3,2), of k0 p] r(2,8) True
    show ?thesis by (simp add: I_def zip_update)
  next
    case False
    from spec_bubble_up_stop [OF this] r(2) show ?thesis by (simp add: I_def zip_update)
  qed
  have m: "mset (zip (K'[j' := k0]) (P'[j' := p])) = mset (zip K0 P0)"
    using r(2) by (simp add: I_def)
  have f: "\<forall>m. m < 1 \<or> pos < m \<longrightarrow> K'[j' := k0] ! m = K0 ! m \<and> P'[j' := p] ! m = P0 ! m"
  proof (intro allI impI)
    fix m
    assume m: "m < 1 \<or> pos < m"
    then have old: "K' ! m = K0 ! m \<and> P' ! m = P0 ! m" using r(2) unfolding I_def by blast
    have "m \<noteq> j'" using m r(2,3) by (auto simp: I_def)
    with old show "K'[j' := k0] ! m = K0 ! m \<and> P'[j' := p] ! m = P0 ! m" by simp
  qed
  show ?thesis
    apply (rule exI [where x = "K'[j' := k0]"])
    apply (rule exI [where x = "P'[j' := p]"])
    using res h sd m f r(4,5) t
    unfolding H_def R_def K0_def P0_def k0_def p_def
    by simp
qed

section \<open>Heap order and slices of the arrays\<close>

lemma heap_okD:
  assumes "occupied q < length (priorities' q)" "heap_ok q"
  shows "heap_upto (priorities' q) (occupied q)"
  unfolding heap_upto_def
proof (intro allI impI)
  fix m assume m: "2 \<le> m \<and> m \<le> occupied q"
  then have "m \<in> {ROOT_INDEX <.. occupied q}" by (simp add: ROOT_INDEX_def)
  then have "js_le (rd (priorities' q) (shr1 m)) (rd (priorities' q) m)"
    using assms(2) unfolding heap_ok_def by blast
  moreover have "m < length (priorities' q)" "m div 2 < length (priorities' q)"
    using m assms(1) by auto
  ultimately show "priorities' q ! (m div 2) \<le> priorities' q ! m"
    by (simp add: rd_in shr1_def num_le_def)
qed

lemma heap_okI:
  assumes "occupied q < length (priorities' q)" "nonan (priorities' q) (occupied q)"
    "heap_upto (priorities' q) (occupied q)"
  shows "heap_ok q"
  unfolding heap_ok_def
proof
  fix m assume "m \<in> {ROOT_INDEX <.. occupied q}"
  then have m: "2 \<le> m" "m \<le> occupied q" by (simp_all add: ROOT_INDEX_def)
  then have l: "m < length (priorities' q)" "m div 2 < length (priorities' q)"
    using assms(1) by auto
  have "1 \<le> m div 2" "m div 2 \<le> occupied q" "1 \<le> m" using m by auto
  then have "priorities' q ! (m div 2) \<noteq> NaN" "priorities' q ! m \<noteq> NaN"
    using assms(2) m(2) unfolding nonan_def by blast+
  moreover have "priorities' q ! (m div 2) \<le> priorities' q ! m"
    using assms(3) m by (simp add: heap_upto_def)
  ultimately show "js_le (rd (priorities' q) (shr1 m)) (rd (priorities' q) m)"
    using l by (simp add: rd_in shr1_def num_cmp_nonan)
qed

lemma heap_upto_node: "heap_upto P n = (\<forall>k\<ge>1. node_ok P n k)"
proof
  assume h: "heap_upto P n"
  show "\<forall>k\<ge>1. node_ok P n k"
  proof (intro allI impI)
    fix k :: nat assume "1 \<le> k"
    then have "2 \<le> 2 * k" "2 \<le> 2 * k + 1" by simp_all
    moreover have "(2 * k) div 2 = k" "(2 * k + 1) div 2 = k" by simp_all
    ultimately show "node_ok P n k"
      using h unfolding heap_upto_def node_ok_def by metis
  qed
next
  assume n: "\<forall>k\<ge>1. node_ok P n k"
  show "heap_upto P n"
    unfolding heap_upto_def
  proof (intro allI impI)
    fix m assume m: "2 \<le> m \<and> m \<le> n"
    then have k: "1 \<le> m div 2" by auto
    have "m = 2 * (m div 2) \<or> m = 2 * (m div 2) + 1" by auto
    then show "P ! (m div 2) \<le> P ! m"
    proof
      assume e: "m = 2 * (m div 2)"
      then have "2 * (m div 2) \<le> n" using m by simp
      then have "P ! (m div 2) \<le> P ! (2 * (m div 2))" using n k by (simp add: node_ok_def)
      with e show ?thesis by simp
    next
      assume e: "m = 2 * (m div 2) + 1"
      then have "2 * (m div 2) + 1 \<le> n" using m by simp
      then have "P ! (m div 2) \<le> P ! (2 * (m div 2) + 1)" using n k by (simp add: node_ok_def)
      with e show ?thesis by simp
    qed
  qed
qed

lemma heap_upto_mono: "heap_upto P n \<Longrightarrow> m \<le> n \<Longrightarrow> heap_upto P m"
  by (simp add: heap_upto_def)

lemma nonan_mono: "nonan P n \<Longrightarrow> m \<le> n \<Longrightarrow> nonan P m"
  by (simp add: nonan_def)

lemma heap_upto_root_min:
  "heap_upto P n \<Longrightarrow> 1 \<le> m \<Longrightarrow> m \<le> n \<Longrightarrow> P ! 1 \<le> P ! m"
proof (induction m rule: less_induct)
  case (less m)
  show ?case
  proof (cases "m = 1")
    case True
    then show ?thesis by simp
  next
    case False
    then have m: "2 \<le> m" using less.prems by simp
    then have "P ! (m div 2) \<le> P ! m" using less.prems by (simp add: heap_upto_def)
    moreover have "P ! 1 \<le> P ! (m div 2)"
      using less.IH [of "m div 2"] m less.prems by auto
    ultimately show ?thesis by simp
  qed
qed

lemma slice_map: "a + n \<le> length Z \<Longrightarrow> take n (drop a Z) = map ((!) Z) [a..<a + n]"
  by (rule nth_equalityI) simp_all

lemma slice_mset_cong:
  assumes l: "length Z' = length Z" and m: "mset Z' = mset Z"
    and f: "\<forall>m. (m < a \<or> b \<le> m) \<and> m < length Z \<longrightarrow> Z' ! m = Z ! m"
    and ab: "a \<le> b" "b \<le> length Z"
  shows "mset (map ((!) Z') [a..<b]) = mset (map ((!) Z) [a..<b])"
proof -
  have split: "[0..<length Z] = [0..<a] @ [a..<b] @ [b..<length Z]"
    using ab by (metis le0 upt_add_eq_append le_add_diff_inverse le_trans)
  have d: "map ((!) Y) [0..<length Z] = Y" if "length Y = length Z" for Y :: "'a list"
    using that map_nth [of Y] by simp
  have "mset (map ((!) Z') ([0..<a] @ [a..<b] @ [b..<length Z])) =
        mset (map ((!) Z) ([0..<a] @ [a..<b] @ [b..<length Z]))"
    using m d [OF l] d [of Z] split by simp
  moreover have "map ((!) Z') [0..<a] = map ((!) Z) [0..<a]"
    using f ab by simp
  moreover have "map ((!) Z') [b..<length Z] = map ((!) Z) [b..<length Z]"
    using f by simp
  ultimately show ?thesis by simp
qed

lemma wf_lengths:
  assumes "wfq q"
  shows "length (keys' q) = capacity' q + 1" "length (priorities' q) = capacity' q + 1"
    "length' q \<le> capacity' q" "hasPoppedElement' q \<Longrightarrow> length' q < capacity' q"
    "typed (keysType' q) (keys' q)" "typed (prioritiesType' q) (priorities' q)"
  using assms by (simp_all add: wfq_def ROOT_INDEX_def)

lemma live_pairs_map:
  assumes "wfq q"
  shows "live_pairs q = map ((!) (zip (keys' q) (priorities' q)))
           (if hasPoppedElement' q then [2..<2 + length' q] else [1..<1 + length' q])"
proof -
  let ?Z = "zip (keys' q) (priorities' q)"
  have l: "length ?Z = capacity' q + 1"
    using assms by (simp add: wfq_def ROOT_INDEX_def)
  show ?thesis
  proof (cases "hasPoppedElement' q")
    case True
    then have b: "2 + length' q \<le> length ?Z" using assms l by (simp add: wfq_def)
    from True have "live_pairs q = take (length' q) (drop 2 ?Z)"
      by (simp add: live_pairs_def ROOT_INDEX_def numeral_2_eq_2)
    also have "\<dots> = map ((!) ?Z) [2..<2 + length' q]" by (rule slice_map) (rule b)
    finally show ?thesis using True by (simp only: if_True)
  next
    case False
    have b: "1 + length' q \<le> length ?Z" using assms l by (simp add: wfq_def)
    from False have "live_pairs q = take (length' q) (drop 1 ?Z)"
      by (simp add: live_pairs_def ROOT_INDEX_def)
    also have "\<dots> = map ((!) ?Z) [1..<1 + length' q]" by (rule slice_map) (rule b)
    finally show ?thesis using False by (simp only: if_False)
  qed
qed

lemma slice_snd:
  assumes "length K = length P" "b \<le> length P"
  shows "snd ` set (map ((!) (zip K P)) [a..<b]) = {P ! m |m. a \<le> m \<and> m < b}"
proof -
  have "snd (zip K P ! m) = P ! m" if "m < b" for m using that assms by simp
  then show ?thesis by (auto simp: image_iff) force
qed

lemma nan_free_clean:
  assumes "wfq q" "\<not> hasPoppedElement' q"
  shows "nan_free q = nonan (priorities' q) (length' q)"
proof -
  have "snd ` set (live_pairs q) = {priorities' q ! m |m. 1 \<le> m \<and> m < 1 + length' q}"
    unfolding live_pairs_map [OF assms(1)] using assms(2) wf_lengths [OF assms(1)]
    by (simp only: if_False) (rule slice_snd, simp_all)
  then show ?thesis unfolding nan_free_def nonan_def by auto
qed

lemma nan_free_pending:
  assumes "wfq q" "hasPoppedElement' q"
  shows "nan_free q = (\<forall>m. 2 \<le> m \<and> m \<le> length' q + 1 \<longrightarrow> priorities' q ! m \<noteq> NaN)"
proof -
  have "snd ` set (live_pairs q) = {priorities' q ! m |m. 2 \<le> m \<and> m < 2 + length' q}"
    unfolding live_pairs_map [OF assms(1)] using assms(2) wf_lengths [OF assms(1)]
    by (simp only: if_True) (rule slice_snd, simp_all)
  then show ?thesis unfolding nan_free_def by auto
qed

lemma nan_free_mset:
  "mset (live_pairs q') = mset (live_pairs q) \<Longrightarrow> nan_free q' = nan_free q"
  unfolding nan_free_def by (metis set_mset_mset)

lemma zip_frame:
  assumes "length K' = length K" "length P' = length P"
    and "\<forall>m. Q m \<longrightarrow> K' ! m = K ! m \<and> P' ! m = P ! m"
  shows "\<forall>m. Q m \<and> m < length (zip K P) \<longrightarrow> zip K' P' ! m = zip K P ! m"
  using assms by simp

lemma mset_rotate:
  assumes "map f xs = map g xs" "f x = g y"
  shows "mset (map f (x # xs)) = mset (map g (xs @ [y]))"
proof -
  have "mset (map f (x # xs)) = add_mset (f x) (mset (map f xs))" by simp
  also have "\<dots> = add_mset (g y) (mset (map g xs))" by (simp only: assms)
  also have "\<dots> = mset (map g (xs @ [y]))" by simp
  finally show ?thesis .
qed

section \<open>The methods on well-formed queues\<close>

lemma removePoppedElement_clean:
  "\<not> hasPoppedElement' q \<Longrightarrow> removePoppedElement q = Some q"
  by (simp add: removePoppedElement_def)

lemma removePoppedElement_pending:
  assumes wf: "wfq q" and pend: "hasPoppedElement' q"
  shows "\<exists>K' P'. removePoppedElement q =
            Some (q\<lparr>keys' := K', priorities' := P', hasPoppedElement' := False\<rparr>) \<and>
          length K' = capacity' q + 1 \<and> length P' = capacity' q + 1 \<and>
          typed (keysType' q) K' \<and> typed (prioritiesType' q) P' \<and>
          mset (map ((!) (zip K' P')) [1..<1 + length' q]) = mset (live_pairs q) \<and>
          (heap_ok q \<and> nan_free q \<longrightarrow> heap_upto P' (length' q))"
proof -
  define n where "n = length' q"
  define K where "K = keys' q"
  define P where "P = priorities' q"
  define kt where "kt = keysType' q"
  define pt where "pt = prioritiesType' q"
  define lk where "lk = capacity' q + 1"
  let ?Z = "zip K P"
  have l: "length K = lk" "length P = lk" and n: "n + 1 < lk"
    and t: "typed kt K" "typed pt P"
    using wf_lengths [OF wf] pend by (simp_all add: K_def P_def lk_def n_def kt_def pt_def)
  define K1 where "K1 = K[1 := K ! (n + 1)]"
  define P1 where "P1 = P[1 := P ! (n + 1)]"
  define q1 where "q1 = q\<lparr>keys' := K1, priorities' := P1\<rparr>"
  have w: "wr kt K 1 (rd K (n + 1)) = K1" "wr pt P 1 (rd P (n + 1)) = P1"
    using wr_rd [OF t(1)] wr_rd [OF t(2)] l n by (simp_all add: K1_def P1_def)
  have def: "removePoppedElement q =
      (case bubbleDown 1 q1 of None \<Rightarrow> None | Some q3 \<Rightarrow> Some (q3\<lparr>hasPoppedElement' := False\<rparr>))"
    using pend w
    by (simp add: removePoppedElement_def Let_def ROOT_INDEX_def q1_def
        K_def [symmetric] P_def [symmetric] n_def [symmetric] kt_def [symmetric]
        pt_def [symmetric] split: option.split)
  have t1: "typed kt K1" "typed pt P1"
    using t l n typed_nth [OF t(1), of "n + 1"] typed_nth [OF t(2), of "n + 1"]
    by (simp_all add: K1_def P1_def typed_update)
  have "\<exists>K' P'. bubbleDown 1 q1 = Some (q1\<lparr>keys' := K', priorities' := P'\<rparr>) \<and>
     length K' = lk \<and> length P' = lk \<and> typed kt K' \<and> typed pt P' \<and>
     zip K' P' = spec_bubble_down (keys' q1 ! 1, priorities' q1 ! 1) (length' q1) 1
                   (zip (keys' q1) (priorities' q1)) \<and>
     mset (zip K' P') = mset (zip (keys' q1) (priorities' q1)) \<and>
     (\<forall>m. m < 1 \<or> length' q1 < m \<longrightarrow> K' ! m = keys' q1 ! m \<and> P' ! m = priorities' q1 ! m) \<and>
     (nonan (priorities' q1) (length' q1) \<and> priorities' q1 ! 1 \<noteq> NaN \<and>
      (\<forall>k>1. node_ok (priorities' q1) (length' q1) k) \<longrightarrow>
        (\<forall>k\<ge>1. node_ok P' (length' q1) k) \<and> nonan P' (length' q1))"
    by (rule bubbleDown_spec)
       (use l n t1 in \<open>simp_all add: q1_def K1_def P1_def n_def kt_def pt_def\<close>)
  then obtain K' P' where r: "bubbleDown 1 q1 = Some (q1\<lparr>keys' := K', priorities' := P'\<rparr>)"
      "length K' = lk" "length P' = lk" "typed kt K'" "typed pt P'"
      "mset (zip K' P') = mset (zip K1 P1)"
      "\<forall>m. m < 1 \<or> n < m \<longrightarrow> K' ! m = K1 ! m \<and> P' ! m = P1 ! m"
      "nonan P1 n \<and> P1 ! 1 \<noteq> NaN \<and> (\<forall>k>1. node_ok P1 n k) \<longrightarrow>
         (\<forall>k\<ge>1. node_ok P' n k) \<and> nonan P' n"
    by (auto simp: q1_def n_def)
  have res: "removePoppedElement q = Some (q\<lparr>keys' := K', priorities' := P', hasPoppedElement' := False\<rparr>)"
    unfolding def r(1) by (simp add: q1_def)
  have heap: "heap_upto P' n" if hp: "heap_ok q" and nf: "nan_free q"
  proof (cases "n = 0")
    case True
    then show ?thesis by (simp add: heap_upto_def)
  next
    case False
    have hu: "heap_upto P (n + 1)"
      using heap_okD [of q] hp pend n l by (simp add: occupied_def P_def n_def)
    have nn: "\<forall>m. 2 \<le> m \<and> m \<le> n + 1 \<longrightarrow> P ! m \<noteq> NaN"
      using nf nan_free_pending [OF wf pend] by (simp add: P_def n_def)
    have H1: "\<forall>k>1. node_ok P1 n k"
    proof (intro allI impI)
      fix k :: nat assume k: "1 < k"
      then have "node_ok P (n + 1) k" using hu by (simp add: heap_upto_node)
      then show "node_ok P1 n k" using k by (simp add: node_ok_def P1_def)
    qed
    have p1: "P1 ! 1 \<noteq> NaN" using nn False l n by (simp add: P1_def)
    have "P1 ! m \<noteq> NaN" if "1 \<le> m" "m \<le> n" for m
    proof (cases "m = 1")
      case True
      then show ?thesis using p1 by simp
    next
      case False
      then show ?thesis using nn that by (simp add: P1_def)
    qed
    then have "nonan P1 n" by (simp add: nonan_def)
    with r(8) H1 p1 show ?thesis by (simp add: heap_upto_node)
  qed
  have l1: "length K1 = lk" "length P1 = lk" using l by (simp_all add: K1_def P1_def)
  have fr: "\<forall>m. (m < 1 \<or> 1 + n \<le> m) \<and> m < length (zip K1 P1) \<longrightarrow> zip K' P' ! m = zip K1 P1 ! m"
    using r(2,3,7) l1 by auto
  have s1: "mset (map ((!) (zip K' P')) [1..<1 + n]) = mset (map ((!) (zip K1 P1)) [1..<1 + n])"
    by (rule slice_mset_cong) (use r l1 fr n in simp_all)
  have lp: "live_pairs q = map ((!) ?Z) [2..<2 + n]"
    using live_pairs_map [OF wf] pend by (simp add: K_def P_def n_def)
  have s2: "mset (map ((!) (zip K1 P1)) [1..<1 + n]) = mset (map ((!) ?Z) [2..<2 + n])"
  proof (cases "n = 0")
    case True
    then show ?thesis by simp
  next
    case False
    then have a: "[1..<1 + n] = 1 # [2..<n + 1]" and b: "[2..<2 + n] = [2..<n + 1] @ [n + 1]"
      by (simp_all add: upt_conv_Cons numeral_2_eq_2)
    have "zip K1 P1 ! x = ?Z ! x" if "2 \<le> x" "x < n + 1" for x
      using that l n by (simp add: K1_def P1_def)
    then have c: "map ((!) (zip K1 P1)) [2..<n + 1] = map ((!) ?Z) [2..<n + 1]"
      by (intro map_cong) auto
    have d: "zip K1 P1 ! 1 = ?Z ! (n + 1)"
      using l n by (simp add: K1_def P1_def)
    show ?thesis unfolding a b by (rule mset_rotate) (rule c, rule d)
  qed
  show ?thesis
    apply (rule exI [where x = K'])
    apply (rule exI [where x = P'])
    using res r(2,3,4,5) heap s1 s2 lp
    by (simp add: lk_def n_def kt_def pt_def)
qed

lemma removePoppedElement_spec:
  assumes wf: "wfq q"
  shows "\<exists>q'. removePoppedElement q = Some q' \<and> wfq q' \<and> \<not> hasPoppedElement' q' \<and>
           length' q' = length' q \<and> capacity' q' = capacity' q \<and>
           keysType' q' = keysType' q \<and> prioritiesType' q' = prioritiesType' q \<and>
           mset (live_pairs q') = mset (live_pairs q) \<and>
           (heap_ok q \<and> nan_free q \<longrightarrow> heap_ok q' \<and> nan_free q')"
proof (cases "hasPoppedElement' q")
  case False
  then show ?thesis using wf by (simp add: removePoppedElement_clean)
next
  case True
  from removePoppedElement_pending [OF wf True]
  obtain K' P' where r: "removePoppedElement q =
            Some (q\<lparr>keys' := K', priorities' := P', hasPoppedElement' := False\<rparr>)"
      "length K' = capacity' q + 1" "length P' = capacity' q + 1"
      "typed (keysType' q) K'" "typed (prioritiesType' q) P'"
      "mset (map ((!) (zip K' P')) [1..<1 + length' q]) = mset (live_pairs q)"
      "heap_ok q \<and> nan_free q \<longrightarrow> heap_upto P' (length' q)"
    by blast
  let ?q = "q\<lparr>keys' := K', priorities' := P', hasPoppedElement' := False\<rparr>"
  have w: "wfq ?q" using wf r(2,3,4,5) by (simp add: wfq_def ROOT_INDEX_def)
  have m: "mset (live_pairs ?q) = mset (live_pairs q)"
    using live_pairs_map [OF w] r(6) by simp
  have h: "heap_ok ?q \<and> nan_free ?q" if a: "heap_ok q \<and> nan_free q"
  proof -
    have nf: "nan_free ?q" using nan_free_mset [OF m] a by simp
    then have nn: "nonan P' (length' q)" using nan_free_clean [OF w] by simp
    have "occupied ?q < length (priorities' ?q)"
      using wf r(3) by (simp add: occupied_def wfq_def)
    moreover have "nonan (priorities' ?q) (occupied ?q)" using nn by (simp add: occupied_def)
    moreover have "heap_upto (priorities' ?q) (occupied ?q)"
      using r(7) a by (simp add: occupied_def)
    ultimately have "heap_ok ?q" by (rule heap_okI)
    with nf show ?thesis by simp
  qed
  show ?thesis using r(1) w h m by simp
qed

lemma push_full:
  "length' q = capacity' q \<Longrightarrow> push key priority q = Some (Inl HeapReachedCapacity, q)"
  by (simp add: push_def)

lemma push_pending:
  assumes wf: "wfq q" and pend: "hasPoppedElement' q"
  shows "\<exists>K' P'. push key priority q =
            Some (Inr (), q\<lparr>keys' := K', priorities' := P', length' := length' q + 1,
                             hasPoppedElement' := False\<rparr>) \<and>
          length K' = capacity' q + 1 \<and> length P' = capacity' q + 1 \<and>
          typed (keysType' q) K' \<and> typed (prioritiesType' q) P' \<and>
          (zip K' P', length' q + 1, False) = spec_push (stored_in q (key, priority)) (heap_of q) \<and>
          mset (map ((!) (zip K' P')) [1..<1 + (length' q + 1)]) =
            add_mset (stored_in q (key, priority)) (mset (live_pairs q)) \<and>
          (heap_ok q \<and> nan_free q \<and> snd (stored_in q (key, priority)) \<noteq> NaN \<longrightarrow>
             heap_upto P' (length' q + 1) \<and> nonan P' (length' q + 1))"
proof -
  define n where "n = length' q"
  define K where "K = keys' q"
  define P where "P = priorities' q"
  define kt where "kt = keysType' q"
  define pt where "pt = prioritiesType' q"
  define lk where "lk = capacity' q + 1"
  define k where "k = store kt (Num key)"
  define p where "p = store pt (Num priority)"
  let ?Z = "zip K P"
  have st: "stored_in q (key, priority) = (k, p)"
    by (simp add: stored_in_def k_def p_def kt_def pt_def)
  have l: "length K = lk" "length P = lk" and n: "n + 1 < lk"
    and t: "typed kt K" "typed pt P"
    using wf_lengths [OF wf] pend by (simp_all add: K_def P_def lk_def n_def kt_def pt_def)
  define K1 where "K1 = K[1 := k]"
  define P1 where "P1 = P[1 := p]"
  define q1 where "q1 = q\<lparr>keys' := K1, priorities' := P1, length' := n + 1\<rparr>"
  have def: "push key priority q =
      (case bubbleDown 1 q1 of None \<Rightarrow> None | Some q3 \<Rightarrow> Some (Inr (), q3\<lparr>hasPoppedElement' := False\<rparr>))"
    using pend n l wf_lengths [OF wf]
    by (simp add: push_def Let_def ROOT_INDEX_def q1_def K1_def P1_def wr_def k_def p_def
        K_def [symmetric] P_def [symmetric] n_def [symmetric] kt_def [symmetric]
        pt_def [symmetric] split: option.split)
  have t1: "typed kt K1" "typed pt P1"
    using t by (simp_all add: K1_def P1_def k_def p_def typed_update store_idem)
  have qf: "keys' q1 = K1" "priorities' q1 = P1" "length' q1 = n + 1"
    by (simp_all add: q1_def)
  have "\<exists>K' P'. bubbleDown 1 q1 = Some (q1\<lparr>keys' := K', priorities' := P'\<rparr>) \<and>
     length K' = lk \<and> length P' = lk \<and> typed kt K' \<and> typed pt P' \<and>
     zip K' P' = spec_bubble_down (keys' q1 ! 1, priorities' q1 ! 1) (length' q1) 1
                   (zip (keys' q1) (priorities' q1)) \<and>
     mset (zip K' P') = mset (zip (keys' q1) (priorities' q1)) \<and>
     (\<forall>m. m < 1 \<or> length' q1 < m \<longrightarrow> K' ! m = keys' q1 ! m \<and> P' ! m = priorities' q1 ! m) \<and>
     (nonan (priorities' q1) (length' q1) \<and> priorities' q1 ! 1 \<noteq> NaN \<and>
      (\<forall>k>1. node_ok (priorities' q1) (length' q1) k) \<longrightarrow>
        (\<forall>k\<ge>1. node_ok P' (length' q1) k) \<and> nonan P' (length' q1))"
    by (rule bubbleDown_spec)
       (use l n t1 in \<open>simp_all add: q1_def K1_def P1_def kt_def pt_def\<close>)
  then obtain K' P' where r: "bubbleDown 1 q1 = Some (q1\<lparr>keys' := K', priorities' := P'\<rparr>)"
      "length K' = lk" "length P' = lk" "typed kt K'" "typed pt P'"
      "zip K' P' = spec_bubble_down (K1 ! 1, P1 ! 1) (n + 1) 1 (zip K1 P1)"
      "mset (zip K' P') = mset (zip K1 P1)"
      "\<forall>m. m < 1 \<or> n + 1 < m \<longrightarrow> K' ! m = K1 ! m \<and> P' ! m = P1 ! m"
      "nonan P1 (n + 1) \<and> P1 ! 1 \<noteq> NaN \<and> (\<forall>k>1. node_ok P1 (n + 1) k) \<longrightarrow>
         (\<forall>k\<ge>1. node_ok P' (n + 1) k) \<and> nonan P' (n + 1)"
    unfolding qf by blast
  have res: "push key priority q = Some (Inr (), q\<lparr>keys' := K', priorities' := P', length' := n + 1,
      hasPoppedElement' := False\<rparr>)"
    unfolding def r(1) by (simp add: q1_def)
  have sp: "(zip K' P', n + 1, False) = spec_push (k, p) (heap_of q)"
    using r(6) pend l n
    by (simp add: spec_push_def heap_of_def ROOT_INDEX_def K1_def P1_def zip_update
        K_def [symmetric] P_def [symmetric] n_def [symmetric])
  have heap: "heap_upto P' (n + 1) \<and> nonan P' (n + 1)"
    if hp: "heap_ok q" and nf: "nan_free q" and pn: "p \<noteq> NaN"
  proof -
    have hu: "heap_upto P (n + 1)"
      using heap_okD [of q] hp pend n l by (simp add: occupied_def P_def n_def)
    have nn: "\<forall>m. 2 \<le> m \<and> m \<le> n + 1 \<longrightarrow> P ! m \<noteq> NaN"
      using nf nan_free_pending [OF wf pend] by (simp add: P_def n_def)
    have H1: "\<forall>k>1. node_ok P1 (n + 1) k"
    proof (intro allI impI)
      fix k :: nat assume k: "1 < k"
      then have "node_ok P (n + 1) k" using hu by (simp add: heap_upto_node)
      then show "node_ok P1 (n + 1) k" using k by (simp add: node_ok_def P1_def)
    qed
    have p1: "P1 ! 1 \<noteq> NaN" using pn l n by (simp add: P1_def)
    have "P1 ! m \<noteq> NaN" if "1 \<le> m" "m \<le> n + 1" for m
    proof (cases "m = 1")
      case True
      then show ?thesis using p1 by simp
    next
      case False
      then show ?thesis using nn that by (simp add: P1_def)
    qed
    then have "nonan P1 (n + 1)" by (simp add: nonan_def)
    with r(9) H1 p1 show ?thesis by (simp add: heap_upto_node)
  qed
  have l1: "length K1 = lk" "length P1 = lk" using l by (simp_all add: K1_def P1_def)
  have fr: "\<forall>m. (m < 1 \<or> 1 + (n + 1) \<le> m) \<and> m < length (zip K1 P1) \<longrightarrow> zip K' P' ! m = zip K1 P1 ! m"
    using r(2,3,8) l1 by auto
  have s1: "mset (map ((!) (zip K' P')) [1..<1 + (n + 1)]) = mset (map ((!) (zip K1 P1)) [1..<1 + (n + 1)])"
    by (rule slice_mset_cong) (use r(2,3,7) l1 fr n in simp_all)
  have lp: "live_pairs q = map ((!) ?Z) [2..<2 + n]"
    using live_pairs_map [OF wf] pend by (simp add: K_def P_def n_def)
  have a: "[1..<1 + (n + 1)] = 1 # [2..<2 + n]"
    by (simp add: upt_conv_Cons numeral_2_eq_2)
  have "zip K1 P1 ! x = ?Z ! x" if "2 \<le> x" "x < 2 + n" for x
    using that l n by (simp add: K1_def P1_def)
  then have c: "map ((!) (zip K1 P1)) [2..<2 + n] = map ((!) ?Z) [2..<2 + n]"
    by (intro map_cong) auto
  have d: "zip K1 P1 ! 1 = (k, p)"
    using l n by (simp add: K1_def P1_def)
  have s2: "mset (map ((!) (zip K1 P1)) [1..<1 + (n + 1)]) =
      add_mset (k, p) (mset (map ((!) ?Z) [2..<2 + n]))"
    unfolding a by (simp only: list.map mset.simps c d)
  show ?thesis
    apply (rule exI [where x = K'])
    apply (rule exI [where x = P'])
    using res r(2,3,4,5) sp heap s1 s2 lp
    by (simp add: lk_def n_def kt_def pt_def st)
qed

lemma push_clean:
  assumes wf: "wfq q" and pend: "\<not> hasPoppedElement' q"
    and room: "length' q \<noteq> capacity' q"
  shows "\<exists>K' P'. push key priority q =
            Some (Inr (), q\<lparr>keys' := K', priorities' := P', length' := length' q + 1\<rparr>) \<and>
          length K' = capacity' q + 1 \<and> length P' = capacity' q + 1 \<and>
          typed (keysType' q) K' \<and> typed (prioritiesType' q) P' \<and>
          (zip K' P', length' q + 1, False) = spec_push (stored_in q (key, priority)) (heap_of q) \<and>
          mset (map ((!) (zip K' P')) [1..<1 + (length' q + 1)]) =
            add_mset (stored_in q (key, priority)) (mset (live_pairs q)) \<and>
          (heap_ok q \<and> nan_free q \<and> snd (stored_in q (key, priority)) \<noteq> NaN \<longrightarrow>
             heap_upto P' (length' q + 1) \<and> nonan P' (length' q + 1))"
proof -
  define n where "n = length' q"
  define K where "K = keys' q"
  define P where "P = priorities' q"
  define kt where "kt = keysType' q"
  define pt where "pt = prioritiesType' q"
  define lk where "lk = capacity' q + 1"
  define k where "k = store kt (Num key)"
  define p where "p = store pt (Num priority)"
  let ?Z = "zip K P"
  have st: "stored_in q (key, priority) = (k, p)"
    by (simp add: stored_in_def k_def p_def kt_def pt_def)
  have l: "length K = lk" "length P = lk" and n: "n + 1 < lk"
    and t: "typed kt K" "typed pt P"
    using wf_lengths [OF wf] room by (simp_all add: K_def P_def lk_def n_def kt_def pt_def)
  define K1 where "K1 = K[n + 1 := k]"
  define P1 where "P1 = P[n + 1 := p]"
  define q1 where "q1 = q\<lparr>keys' := K1, priorities' := P1, length' := n + 1\<rparr>"
  have def: "push key priority q = Some (Inr (), bubbleUp (n + 1) q1)"
    using pend room
    by (simp add: push_def Let_def ROOT_INDEX_def q1_def K1_def P1_def wr_def k_def p_def
        K_def [symmetric] P_def [symmetric] n_def [symmetric] kt_def [symmetric]
        pt_def [symmetric])
  have t1: "typed kt K1" "typed pt P1"
    using t by (simp_all add: K1_def P1_def k_def p_def typed_update store_idem)
  have qf: "keys' q1 = K1" "priorities' q1 = P1" "length' q1 = n + 1"
    by (simp_all add: q1_def)
  have "\<exists>K' P'. bubbleUp (n + 1) q1 = q1\<lparr>keys' := K', priorities' := P'\<rparr> \<and>
     length K' = lk \<and> length P' = lk \<and> typed kt K' \<and> typed pt P' \<and>
     zip K' P' = spec_bubble_up (keys' q1 ! (n + 1), priorities' q1 ! (n + 1)) (n + 1)
                   (zip (keys' q1) (priorities' q1)) \<and>
     mset (zip K' P') = mset (zip (keys' q1) (priorities' q1)) \<and>
     (\<forall>m. m < 1 \<or> n + 1 < m \<longrightarrow> K' ! m = keys' q1 ! m \<and> P' ! m = priorities' q1 ! m) \<and>
     (nonan (priorities' q1) (n + 1) \<and>
      (\<forall>m. 2 \<le> m \<and> m < n + 1 \<longrightarrow> priorities' q1 ! (m div 2) \<le> priorities' q1 ! m) \<longrightarrow>
      (\<forall>m. 2 \<le> m \<and> m \<le> n + 1 \<longrightarrow> P' ! (m div 2) \<le> P' ! m) \<and> nonan P' (n + 1))"
    by (rule bubbleUp_spec)
       (use l n t1 in \<open>simp_all add: q1_def K1_def P1_def kt_def pt_def\<close>)
  then obtain K' P' where r: "bubbleUp (n + 1) q1 = q1\<lparr>keys' := K', priorities' := P'\<rparr>"
      "length K' = lk" "length P' = lk" "typed kt K'" "typed pt P'"
      "zip K' P' = spec_bubble_up (K1 ! (n + 1), P1 ! (n + 1)) (n + 1) (zip K1 P1)"
      "mset (zip K' P') = mset (zip K1 P1)"
      "\<forall>m. m < 1 \<or> n + 1 < m \<longrightarrow> K' ! m = K1 ! m \<and> P' ! m = P1 ! m"
      "nonan P1 (n + 1) \<and> (\<forall>m. 2 \<le> m \<and> m < n + 1 \<longrightarrow> P1 ! (m div 2) \<le> P1 ! m) \<longrightarrow>
         (\<forall>m. 2 \<le> m \<and> m \<le> n + 1 \<longrightarrow> P' ! (m div 2) \<le> P' ! m) \<and> nonan P' (n + 1)"
    unfolding qf by blast
  have res: "push key priority q = Some (Inr (), q\<lparr>keys' := K', priorities' := P', length' := n + 1\<rparr>)"
    unfolding def r(1) by (simp add: q1_def)
  have sp: "(zip K' P', n + 1, False) = spec_push (k, p) (heap_of q)"
    using r(6) pend l n
    by (simp add: spec_push_def heap_of_def ROOT_INDEX_def K1_def P1_def zip_update
        K_def [symmetric] P_def [symmetric] n_def [symmetric])
  have heap: "heap_upto P' (n + 1) \<and> nonan P' (n + 1)"
    if hp: "heap_ok q" and nf: "nan_free q" and pn: "p \<noteq> NaN"
  proof -
    have hu: "heap_upto P n"
      using heap_okD [of q] hp pend n l by (simp add: occupied_def P_def n_def)
    have nn: "nonan P n"
      using nf nan_free_clean [OF wf pend] by (simp add: P_def n_def)
    have H1: "\<forall>m. 2 \<le> m \<and> m < n + 1 \<longrightarrow> P1 ! (m div 2) \<le> P1 ! m"
    proof (intro allI impI)
      fix m :: nat assume m: "2 \<le> m \<and> m < n + 1"
      then have "P ! (m div 2) \<le> P ! m" using hu by (simp add: heap_upto_def)
      moreover have "m div 2 \<noteq> n + 1" "m \<noteq> n + 1" using m by auto
      ultimately show "P1 ! (m div 2) \<le> P1 ! m" by (simp add: P1_def)
    qed
    have "P1 ! m \<noteq> NaN" if "1 \<le> m" "m \<le> n + 1" for m
    proof (cases "m = n + 1")
      case True
      then show ?thesis using pn l n by (simp add: P1_def)
    next
      case False
      then show ?thesis using nn that by (simp add: P1_def nonan_def)
    qed
    then have "nonan P1 (n + 1)" by (simp add: nonan_def)
    with r(9) H1 show ?thesis by (simp add: heap_upto_def)
  qed
  have l1: "length K1 = lk" "length P1 = lk" using l by (simp_all add: K1_def P1_def)
  have fr: "\<forall>m. (m < 1 \<or> 1 + (n + 1) \<le> m) \<and> m < length (zip K1 P1) \<longrightarrow> zip K' P' ! m = zip K1 P1 ! m"
    using r(2,3,8) l1 by auto
  have s1: "mset (map ((!) (zip K' P')) [1..<1 + (n + 1)]) = mset (map ((!) (zip K1 P1)) [1..<1 + (n + 1)])"
    by (rule slice_mset_cong) (use r(2,3,7) l1 fr n in simp_all)
  have lp: "live_pairs q = map ((!) ?Z) [1..<1 + n]"
    using live_pairs_map [OF wf] pend by (simp add: K_def P_def n_def)
  have a: "[1..<1 + (n + 1)] = [1..<1 + n] @ [n + 1]"
    by simp
  have "zip K1 P1 ! x = ?Z ! x" if "1 \<le> x" "x < 1 + n" for x
    using that l n by (simp add: K1_def P1_def)
  then have c: "map ((!) (zip K1 P1)) [1..<1 + n] = map ((!) ?Z) [1..<1 + n]"
    by (intro map_cong) auto
  have d: "zip K1 P1 ! (n + 1) = (k, p)"
    using l n by (simp add: K1_def P1_def)
  have s2: "mset (map ((!) (zip K1 P1)) [1..<1 + (n + 1)]) =
      add_mset (k, p) (mset (map ((!) ?Z) [1..<1 + n]))"
    unfolding a by (simp only: map_append list.map mset_append mset.simps c d) simp
  show ?thesis
    apply (rule exI [where x = K'])
    apply (rule exI [where x = P'])
    using res r(2,3,4,5) sp heap s1 s2 lp
    by (simp add: lk_def n_def kt_def pt_def st)
qed

lemma push_spec:
  assumes wf: "wfq q" and room: "length' q \<noteq> capacity' q"
  shows "\<exists>q'. push key priority q = Some (Inr (), q') \<and> wfq q' \<and>
           \<not> hasPoppedElement' q' \<and> length' q' = length' q + 1 \<and> capacity' q' = capacity' q \<and>
           keysType' q' = keysType' q \<and> prioritiesType' q' = prioritiesType' q \<and>
           heap_of q' = spec_push (stored_in q (key, priority)) (heap_of q) \<and>
           mset (live_pairs q') = add_mset (stored_in q (key, priority)) (mset (live_pairs q)) \<and>
           (heap_ok q \<and> nan_free q \<and> snd (stored_in q (key, priority)) \<noteq> NaN \<longrightarrow>
              heap_ok q' \<and> nan_free q')"
proof -
  have "\<exists>K' P'. push key priority q =
            Some (Inr (), q\<lparr>keys' := K', priorities' := P', length' := length' q + 1,
                             hasPoppedElement' := False\<rparr>) \<and>
          length K' = capacity' q + 1 \<and> length P' = capacity' q + 1 \<and>
          typed (keysType' q) K' \<and> typed (prioritiesType' q) P' \<and>
          (zip K' P', length' q + 1, False) = spec_push (stored_in q (key, priority)) (heap_of q) \<and>
          mset (map ((!) (zip K' P')) [1..<1 + (length' q + 1)]) =
            add_mset (stored_in q (key, priority)) (mset (live_pairs q)) \<and>
          (heap_ok q \<and> nan_free q \<and> snd (stored_in q (key, priority)) \<noteq> NaN \<longrightarrow>
             heap_upto P' (length' q + 1) \<and> nonan P' (length' q + 1))"
  proof (cases "hasPoppedElement' q")
    case True
    then show ?thesis by (rule push_pending [OF wf])
  next
    case False
    have "q\<lparr>keys' := K', priorities' := P', length' := length' q + 1, hasPoppedElement' := False\<rparr> =
          q\<lparr>keys' := K', priorities' := P', length' := length' q + 1\<rparr>" for K' P'
      using False by simp
    with push_clean [OF wf False room, of key priority] show ?thesis by simp
  qed
  then obtain K' P' where r: "push key priority q =
            Some (Inr (), q\<lparr>keys' := K', priorities' := P', length' := length' q + 1,
                             hasPoppedElement' := False\<rparr>)"
      "length K' = capacity' q + 1" "length P' = capacity' q + 1"
      "typed (keysType' q) K'" "typed (prioritiesType' q) P'"
      "(zip K' P', length' q + 1, False) = spec_push (stored_in q (key, priority)) (heap_of q)"
      "mset (map ((!) (zip K' P')) [1..<1 + (length' q + 1)]) =
            add_mset (stored_in q (key, priority)) (mset (live_pairs q))"
      "heap_ok q \<and> nan_free q \<and> snd (stored_in q (key, priority)) \<noteq> NaN \<longrightarrow>
             heap_upto P' (length' q + 1) \<and> nonan P' (length' q + 1)"
    by blast
  let ?q = "q\<lparr>keys' := K', priorities' := P', length' := length' q + 1, hasPoppedElement' := False\<rparr>"
  have lt: "length' q < capacity' q" using wf room by (simp add: wfq_def)
  have w: "wfq ?q" using wf r(2,3,4,5) lt by (simp add: wfq_def ROOT_INDEX_def)
  have m: "mset (live_pairs ?q) = add_mset (stored_in q (key, priority)) (mset (live_pairs q))"
    using live_pairs_map [OF w] r(7) by simp
  have ho: "heap_of ?q = spec_push (stored_in q (key, priority)) (heap_of q)"
    using r(6) by (simp add: heap_of_def)
  have h: "heap_ok ?q \<and> nan_free ?q"
    if a: "heap_ok q \<and> nan_free q \<and> snd (stored_in q (key, priority)) \<noteq> NaN"
  proof -
    have b: "heap_upto P' (length' q + 1)" "nonan P' (length' q + 1)" using r(8) a by simp_all
    have "occupied ?q < length (priorities' ?q)"
      using lt r(3) by (simp add: occupied_def)
    moreover have "nonan (priorities' ?q) (occupied ?q)" using b by (simp add: occupied_def)
    moreover have "heap_upto (priorities' ?q) (occupied ?q)" using b by (simp add: occupied_def)
    ultimately have "heap_ok ?q" by (rule heap_okI)
    moreover have "nan_free ?q" using nan_free_clean [OF w] b by simp
    ultimately show ?thesis by simp
  qed
  show ?thesis using r(1) w h m ho by simp
qed

text \<open>A queue with no pending deletion and at least one element: the root is a minimum.\<close>

lemma clean_root:
  assumes wf: "wfq q" and clean: "\<not> hasPoppedElement' q" and ne: "0 < length' q"
  shows "live_pairs q = (keys' q ! 1, priorities' q ! 1) #
            live_pairs (q\<lparr>length' := length' q - 1, hasPoppedElement' := True\<rparr>)"
    and "rd (keys' q) ROOT_INDEX = Num (keys' q ! 1)"
    and "rd (priorities' q) ROOT_INDEX = Num (priorities' q ! 1)"
    and "wfq (q\<lparr>length' := length' q - 1, hasPoppedElement' := True\<rparr>)"
    and "heap_ok q \<Longrightarrow> nan_free q \<Longrightarrow>
           heap_ok (q\<lparr>length' := length' q - 1, hasPoppedElement' := True\<rparr>)"
    and "heap_ok q \<Longrightarrow> \<forall>x \<in> set (live_pairs q). priorities' q ! 1 \<le> snd x"
proof -
  define n where "n = length' q"
  let ?q = "q\<lparr>length' := length' q - 1, hasPoppedElement' := True\<rparr>"
  let ?Z = "zip (keys' q) (priorities' q)"
  have l: "length (keys' q) = capacity' q + 1" "length (priorities' q) = capacity' q + 1"
      "n \<le> capacity' q" "0 < n"
    using wf_lengths [OF wf] ne by (simp_all add: n_def)
  show w: "wfq ?q" using wf ne by (auto simp: wfq_def)
  have hu: "heap_upto (priorities' q) n" if "heap_ok q"
    using that heap_okD [of q] clean l by (simp add: occupied_def n_def)
  have oc: "occupied ?q = n" using ne by (simp add: occupied_def n_def)
  show "heap_ok ?q" if hp: "heap_ok q" and nf: "nan_free q"
  proof (rule heap_okI)
    show "occupied ?q < length (priorities' ?q)" using oc l by simp
    show "nonan (priorities' ?q) (occupied ?q)"
      using nf nan_free_clean [OF wf clean] oc by (simp add: n_def)
    show "heap_upto (priorities' ?q) (occupied ?q)" using hu [OF hp] oc by simp
  qed
  have lp: "live_pairs q = map ((!) ?Z) [1..<1 + n]"
    using live_pairs_map [OF wf] clean by (simp add: n_def)
  have lp': "live_pairs ?q = map ((!) ?Z) [2..<2 + (n - 1)]"
    using live_pairs_map [OF w] by (simp add: n_def)
  have a: "[1..<1 + n] = 1 # [2..<2 + (n - 1)]"
    using l by (simp add: upt_conv_Cons numeral_2_eq_2)
  have z: "?Z ! 1 = (keys' q ! 1, priorities' q ! 1)" using l by simp
  show "live_pairs q = (keys' q ! 1, priorities' q ! 1) # live_pairs ?q"
    unfolding lp lp' a by (simp only: list.map z)
  show "\<forall>x \<in> set (live_pairs q). priorities' q ! 1 \<le> snd x" if hp: "heap_ok q"
  proof
    fix x assume "x \<in> set (live_pairs q)"
    then obtain m where m: "1 \<le> m" "m < 1 + n" "x = ?Z ! m" unfolding lp by auto
    then have "snd x = priorities' q ! m" using l by simp
    moreover have "priorities' q ! 1 \<le> priorities' q ! m"
      using heap_upto_root_min [OF hu [OF hp], of m] m by simp
    ultimately show "priorities' q ! 1 \<le> snd x" by simp
  qed
  show "rd (keys' q) ROOT_INDEX = Num (keys' q ! 1)"
    "rd (priorities' q) ROOT_INDEX = Num (priorities' q ! 1)"
    using l by (simp_all add: rd_in ROOT_INDEX_def)
qed

lemma pop_empty: "length' q = 0 \<Longrightarrow> pop q = Some (Undefined, q)"
  by (simp add: pop_def)

lemma pop_spec:
  assumes wf: "wfq q" and ne: "0 < length' q"
  shows "\<exists>kp q'. pop q = Some (fst (as_read kp), q') \<and> wfq q' \<and>
           hasPoppedElement' q' \<and> length' q' = length' q - 1 \<and> capacity' q' = capacity' q \<and>
           keysType' q' = keysType' q \<and> prioritiesType' q' = prioritiesType' q \<and>
           mset (live_pairs q) = add_mset kp (mset (live_pairs q')) \<and>
           (heap_ok q \<and> nan_free q \<longrightarrow>
              heap_ok q' \<and> nan_free q' \<and> snd kp \<noteq> NaN \<and>
              (\<forall>x \<in> set (live_pairs q'). snd kp \<le> snd x)) \<and>
           (\<forall>q1. removePoppedElement q = Some q1 \<longrightarrow>
              rd (priorities' q1) ROOT_INDEX = snd (as_read kp) \<and>
              rd (keys' q1) ROOT_INDEX = fst (as_read kp) \<and>
              q' = q1\<lparr>length' := length' q1 - 1, hasPoppedElement' := True\<rparr>)"
proof -
  from removePoppedElement_spec [OF wf]
  obtain q1 where r: "removePoppedElement q = Some q1" "wfq q1" "\<not> hasPoppedElement' q1"
      "length' q1 = length' q" "capacity' q1 = capacity' q"
      "keysType' q1 = keysType' q" "prioritiesType' q1 = prioritiesType' q"
      "mset (live_pairs q1) = mset (live_pairs q)"
      "heap_ok q \<and> nan_free q \<longrightarrow> heap_ok q1 \<and> nan_free q1"
    by blast
  let ?q = "q1\<lparr>length' := length' q1 - 1, hasPoppedElement' := True\<rparr>"
  let ?kp = "(keys' q1 ! 1, priorities' q1 ! 1)"
  have ne1: "0 < length' q1" using r(4) ne by simp
  note c = clean_root [OF r(2,3) ne1]
  have res: "pop q = Some (fst (as_read ?kp), ?q)"
    using ne r(1) c(2) by (simp add: pop_def as_read_def)
  have m: "mset (live_pairs q) = add_mset ?kp (mset (live_pairs ?q))"
    using r(8) c(1) by (metis mset.simps(2))
  have h: "heap_ok ?q \<and> nan_free ?q \<and> snd ?kp \<noteq> NaN \<and>
      (\<forall>x \<in> set (live_pairs ?q). snd ?kp \<le> snd x)" if a: "heap_ok q \<and> nan_free q"
  proof -
    have b: "heap_ok q1" "nan_free q1" using r(9) a by simp_all
    have "heap_ok ?q" by (rule c(5) [OF b])
    moreover have "nan_free ?q \<and> snd ?kp \<noteq> NaN"
      using b(2) c(1) by (auto simp: nan_free_def)
    moreover have "\<forall>x \<in> set (live_pairs ?q). snd ?kp \<le> snd x"
      using c(6) [OF b(1)] c(1) by simp
    ultimately show ?thesis by simp
  qed
  show ?thesis
    apply (rule exI [where x = ?kp])
    apply (rule exI [where x = ?q])
    using res c(4) m h r(1,4,5,6,7) c(2,3)
    by (simp add: as_read_def)
qed

lemma peekPriority_spec:
  assumes wf: "wfq q"
  shows "\<exists>q1. removePoppedElement q = Some q1 \<and>
           peekPriority q = Some (rd (priorities' q1) ROOT_INDEX, q1) \<and>
           peek q = Some (rd (keys' q1) ROOT_INDEX, q1)"
  using removePoppedElement_spec [OF wf]
  by (auto simp: peekPriority_def peek_def)

section \<open>The constructor on admissible arguments\<close>

lemma copy_loop_frame:
  "capacity' (copy_loop ks ps i q) = capacity' q \<and> length' (copy_loop ks ps i q) = length' q \<and>
   hasPoppedElement' (copy_loop ks ps i q) = hasPoppedElement' q \<and>
   keysType' (copy_loop ks ps i q) = keysType' q \<and>
   prioritiesType' (copy_loop ks ps i q) = prioritiesType' q \<and>
   length (keys' (copy_loop ks ps i q)) = length (keys' q) \<and>
   length (priorities' (copy_loop ks ps i q)) = length (priorities' q)"
proof (induction ks ps i q rule: copy_loop.induct)
  case (1 ks ps i q)
  show ?case
  proof (cases "i < length ks")
    case True
    with 1 show ?thesis by (subst (1 2 3 4 5 6 7) copy_loop.simps) simp
  next
    case False
    then show ?thesis by (subst (1 2 3 4 5 6 7) copy_loop.simps) simp
  qed
qed

lemma copy_loop_typed:
  "typed (keysType' q) (keys' q) \<Longrightarrow> typed (prioritiesType' q) (priorities' q) \<Longrightarrow>
   typed (keysType' q) (keys' (copy_loop ks ps i q)) \<and>
   typed (prioritiesType' q) (priorities' (copy_loop ks ps i q))"
proof (induction ks ps i q rule: copy_loop.induct)
  case (1 ks ps i q)
  show ?case
  proof (cases "i < length ks")
    case True
    let ?q = "q\<lparr>keys' := wr (keysType' q) (keys' q) (i + ROOT_INDEX) (arr_get ks i),
             priorities' := wr (prioritiesType' q) (priorities' q) (i + ROOT_INDEX)
                              (arr_get ps i)\<rparr>"
    have e: "copy_loop ks ps i q = copy_loop ks ps (i + 1) ?q"
      using True by (subst copy_loop.simps) simp
    have "typed (keysType' ?q) (keys' (copy_loop ks ps (i + 1) ?q)) \<and>
          typed (prioritiesType' ?q) (priorities' (copy_loop ks ps (i + 1) ?q))"
      by (rule "1.IH" [OF True]) (use "1.prems" in \<open>simp_all add: typed_wr\<close>)
    then show ?thesis unfolding e by simp
  next
    case False
    then show ?thesis using "1.prems" by (subst (1 2) copy_loop.simps) simp
  qed
qed

lemma copy_loop_nth:
  assumes "length ks = length ps" "length ks < length (keys' q)" "length ks < length (priorities' q)"
  shows "keys' (copy_loop ks ps i q) ! m =
           (if i < m \<and> m \<le> length ks then store (keysType' q) (Num (ks ! (m - 1)))
            else keys' q ! m) \<and>
         priorities' (copy_loop ks ps i q) ! m =
           (if i < m \<and> m \<le> length ks then store (prioritiesType' q) (Num (ps ! (m - 1)))
            else priorities' q ! m)"
  using assms
proof (induction ks ps i q rule: copy_loop.induct)
  case (1 ks ps i q)
  show ?case
  proof (cases "i < length ks")
    case False
    then show ?thesis by (subst (1 2) copy_loop.simps) auto
  next
    case True
    let ?q = "q\<lparr>keys' := wr (keysType' q) (keys' q) (i + ROOT_INDEX) (arr_get ks i),
             priorities' := wr (prioritiesType' q) (priorities' q) (i + ROOT_INDEX)
                              (arr_get ps i)\<rparr>"
    have e: "copy_loop ks ps i q = copy_loop ks ps (i + 1) ?q"
      using True by (subst copy_loop.simps) simp
    have ih: "keys' (copy_loop ks ps (i + 1) ?q) ! m =
           (if i + 1 < m \<and> m \<le> length ks then store (keysType' ?q) (Num (ks ! (m - 1)))
            else keys' ?q ! m) \<and>
         priorities' (copy_loop ks ps (i + 1) ?q) ! m =
           (if i + 1 < m \<and> m \<le> length ks then store (prioritiesType' ?q) (Num (ps ! (m - 1)))
            else priorities' ?q ! m)"
      using "1.IH" [OF True] "1.prems" by simp
    show ?thesis
      unfolding e using ih True "1.prems"
      by (auto simp: wr_def arr_get_def ROOT_INDEX_def nth_list_update)
  qed
qed

lemma heapify_loop_spec:
  assumes ty: "keysType' q = kt" "prioritiesType' q = pt"
    and len: "length (keys' q) = lk" "length (priorities' q) = lk"
    and tyd: "typed kt (keys' q)" "typed pt (priorities' q)"
    and rng: "length' q < lk" "i \<le> length' q"
  shows "\<exists>K' P'. heapify_loop i q = Some (q\<lparr>keys' := K', priorities' := P'\<rparr>) \<and>
     length K' = lk \<and> length P' = lk \<and> typed kt K' \<and> typed pt P' \<and>
     mset (zip K' P') = mset (zip (keys' q) (priorities' q)) \<and>
     (\<forall>m. m < 1 \<or> length' q < m \<longrightarrow> K' ! m = keys' q ! m \<and> P' ! m = priorities' q ! m) \<and>
     (nonan (priorities' q) (length' q) \<and> (\<forall>k>i. node_ok (priorities' q) (length' q) k) \<longrightarrow>
        (\<forall>k\<ge>1. node_ok P' (length' q) k) \<and> nonan P' (length' q))"
  using ty len tyd rng
proof (induction i arbitrary: q)
  case 0
  have hl: "heapify_loop 0 q = Some q" by (subst heapify_loop.simps) (simp add: ROOT_INDEX_def)
  show ?case
    apply (rule exI [where x = "keys' q"])
    apply (rule exI [where x = "priorities' q"])
    using hl "0.prems" by auto
next
  case (Suc i)
  define n where "n = length' q"
  have "\<exists>K' P'. bubbleDown (Suc i) q = Some (q\<lparr>keys' := K', priorities' := P'\<rparr>) \<and>
     length K' = lk \<and> length P' = lk \<and> typed kt K' \<and> typed pt P' \<and>
     zip K' P' = spec_bubble_down (keys' q ! Suc i, priorities' q ! Suc i) (length' q) (Suc i)
                   (zip (keys' q) (priorities' q)) \<and>
     mset (zip K' P') = mset (zip (keys' q) (priorities' q)) \<and>
     (\<forall>m. m < Suc i \<or> length' q < m \<longrightarrow> K' ! m = keys' q ! m \<and> P' ! m = priorities' q ! m) \<and>
     (nonan (priorities' q) (length' q) \<and> priorities' q ! Suc i \<noteq> NaN \<and>
      (\<forall>k>Suc i. node_ok (priorities' q) (length' q) k) \<longrightarrow>
        (\<forall>k\<ge>Suc i. node_ok P' (length' q) k) \<and> nonan P' (length' q))"
    by (rule bubbleDown_spec) (use Suc.prems in simp_all)
  then obtain K1 P1 where r: "bubbleDown (Suc i) q = Some (q\<lparr>keys' := K1, priorities' := P1\<rparr>)"
      "length K1 = lk" "length P1 = lk" "typed kt K1" "typed pt P1"
      "mset (zip K1 P1) = mset (zip (keys' q) (priorities' q))"
      "\<forall>m. m < Suc i \<or> n < m \<longrightarrow> K1 ! m = keys' q ! m \<and> P1 ! m = priorities' q ! m"
      "nonan (priorities' q) n \<and> priorities' q ! Suc i \<noteq> NaN \<and>
      (\<forall>k>Suc i. node_ok (priorities' q) n k) \<longrightarrow>
        (\<forall>k\<ge>Suc i. node_ok P1 n k) \<and> nonan P1 n"
    unfolding n_def by blast
  let ?q = "q\<lparr>keys' := K1, priorities' := P1\<rparr>"
  have e: "heapify_loop (Suc i) q = heapify_loop i ?q"
    by (subst heapify_loop.simps) (simp add: ROOT_INDEX_def r(1))
  have qf: "keys' ?q = K1" "priorities' ?q = P1" "length' ?q = n" by (simp_all add: n_def)
  have "\<exists>K' P'. heapify_loop i ?q = Some (?q\<lparr>keys' := K', priorities' := P'\<rparr>) \<and>
     length K' = lk \<and> length P' = lk \<and> typed kt K' \<and> typed pt P' \<and>
     mset (zip K' P') = mset (zip (keys' ?q) (priorities' ?q)) \<and>
     (\<forall>m. m < 1 \<or> length' ?q < m \<longrightarrow> K' ! m = keys' ?q ! m \<and> P' ! m = priorities' ?q ! m) \<and>
     (nonan (priorities' ?q) (length' ?q) \<and> (\<forall>k>i. node_ok (priorities' ?q) (length' ?q) k) \<longrightarrow>
        (\<forall>k\<ge>1. node_ok P' (length' ?q) k) \<and> nonan P' (length' ?q))"
    by (rule Suc.IH) (use Suc.prems r(2,3,4,5) in simp_all)
  then obtain K' P' where s: "heapify_loop i ?q = Some (?q\<lparr>keys' := K', priorities' := P'\<rparr>)"
     "length K' = lk" "length P' = lk" "typed kt K'" "typed pt P'"
     "mset (zip K' P') = mset (zip K1 P1)"
     "\<forall>m. m < 1 \<or> n < m \<longrightarrow> K' ! m = K1 ! m \<and> P' ! m = P1 ! m"
     "nonan P1 n \<and> (\<forall>k>i. node_ok P1 n k) \<longrightarrow> (\<forall>k\<ge>1. node_ok P' n k) \<and> nonan P' n"
    unfolding qf by blast
  have f: "\<forall>m. m < 1 \<or> n < m \<longrightarrow> K' ! m = keys' q ! m \<and> P' ! m = priorities' q ! m"
    using s(7) r(7) by auto
  have h: "(\<forall>k\<ge>1. node_ok P' n k) \<and> nonan P' n"
    if a: "nonan (priorities' q) n \<and> (\<forall>k>Suc i. node_ok (priorities' q) n k)"
  proof -
    have "1 \<le> Suc i" "Suc i \<le> n" using Suc.prems(8) by (simp_all add: n_def)
    then have "priorities' q ! Suc i \<noteq> NaN" using a unfolding nonan_def by blast
    with r(8) a have b: "\<forall>k\<ge>Suc i. node_ok P1 n k" "nonan P1 n" by simp_all
    have "\<forall>k>i. node_ok P1 n k" using b(1) by (simp add: Suc_le_eq)
    with s(8) b(2) show ?thesis by simp
  qed
  have m: "mset (zip K' P') = mset (zip (keys' q) (priorities' q))" using s(6) r(6) by simp
  have res: "heapify_loop (Suc i) q = Some (q\<lparr>keys' := K', priorities' := P'\<rparr>)"
    unfolding e s(1) by simp
  show ?case
    apply (rule exI [where x = K'])
    apply (rule exI [where x = P'])
    using res s(2,3,4,5) m f h unfolding n_def by simp
qed

lemma constructor_spec:
  assumes "length ks = length ps" "length ks \<le> c"
  shows "\<exists>q. constructor c ks ps kt pt = Some (Inr q) \<and> wfq q \<and> \<not> hasPoppedElement' q \<and>
           length' q = length ks \<and> capacity' q = c \<and>
           keysType' q = kt \<and> prioritiesType' q = pt \<and>
           mset (live_pairs q) = mset (map (stored_in q) (zip ks ps)) \<and>
           ((\<forall>p \<in> set ps. store pt (Num p) \<noteq> NaN) \<longrightarrow> heap_ok q \<and> nan_free q)"
proof -
  define n where "n = length ks"
  define q0 where "q0 = \<lparr>capacity' = c, keysType' = kt,
               keys' = replicate (c + ROOT_INDEX) (Fin 0), prioritiesType' = pt,
               priorities' = replicate (c + ROOT_INDEX) (Fin 0), length' = 0,
               hasPoppedElement' = False\<rparr>"
  define q1 where "q1 = (copy_loop ks ps 0 q0)\<lparr>length' := n\<rparr>"
  have t0: "typed (keysType' q0) (keys' q0)" "typed (prioritiesType' q0) (priorities' q0)"
    by (simp_all add: q0_def typed_replicate)
  have fr: "capacity' q1 = c" "length' q1 = n" "\<not> hasPoppedElement' q1"
      "keysType' q1 = kt" "prioritiesType' q1 = pt"
      "length (keys' q1) = c + 1" "length (priorities' q1) = c + 1"
    using copy_loop_frame [of ks ps 0 q0] by (simp_all add: q1_def q0_def ROOT_INDEX_def)
  have t1: "typed kt (keys' q1)" "typed pt (priorities' q1)"
    using copy_loop_typed [OF t0, of ks ps 0] by (simp_all add: q1_def q0_def)
  have nth: "keys' q1 ! m = store kt (Num (ks ! (m - 1))) \<and>
             priorities' q1 ! m = store pt (Num (ps ! (m - 1)))"
    if "1 \<le> m" "m \<le> n" for m
    using copy_loop_nth [of ks ps q0 0 m] assms that
    by (simp add: q1_def q0_def ROOT_INDEX_def n_def)
  have def: "constructor c ks ps kt pt =
      (case heapify_loop (n div 2) q1 of None \<Rightarrow> None | Some q \<Rightarrow> Some (Inr q))"
    using assms
    by (simp add: constructor_def Let_def q1_def q0_def n_def shr1_def split: option.split)
  have "\<exists>K' P'. heapify_loop (n div 2) q1 = Some (q1\<lparr>keys' := K', priorities' := P'\<rparr>) \<and>
     length K' = c + 1 \<and> length P' = c + 1 \<and> typed kt K' \<and> typed pt P' \<and>
     mset (zip K' P') = mset (zip (keys' q1) (priorities' q1)) \<and>
     (\<forall>m. m < 1 \<or> length' q1 < m \<longrightarrow> K' ! m = keys' q1 ! m \<and> P' ! m = priorities' q1 ! m) \<and>
     (nonan (priorities' q1) (length' q1) \<and>
      (\<forall>k>n div 2. node_ok (priorities' q1) (length' q1) k) \<longrightarrow>
        (\<forall>k\<ge>1. node_ok P' (length' q1) k) \<and> nonan P' (length' q1))"
    by (rule heapify_loop_spec) (use fr t1 assms in \<open>simp_all add: n_def\<close>)
  then obtain K' P' where r: "heapify_loop (n div 2) q1 = Some (q1\<lparr>keys' := K', priorities' := P'\<rparr>)"
     "length K' = c + 1" "length P' = c + 1" "typed kt K'" "typed pt P'"
     "mset (zip K' P') = mset (zip (keys' q1) (priorities' q1))"
     "\<forall>m. m < 1 \<or> n < m \<longrightarrow> K' ! m = keys' q1 ! m \<and> P' ! m = priorities' q1 ! m"
     "nonan (priorities' q1) n \<and> (\<forall>k>n div 2. node_ok (priorities' q1) n k) \<longrightarrow>
        (\<forall>k\<ge>1. node_ok P' n k) \<and> nonan P' n"
    unfolding fr by blast
  let ?q = "q1\<lparr>keys' := K', priorities' := P'\<rparr>"
  have res: "constructor c ks ps kt pt = Some (Inr ?q)" unfolding def r(1) by simp
  have w: "wfq ?q" using fr r(2,3,4,5) assms by (simp add: wfq_def ROOT_INDEX_def n_def)
  have st: "stored_in ?q = (\<lambda>kp. (store kt (Num (fst kp)), store pt (Num (snd kp))))"
    by (rule ext) (simp add: stored_in_def fr)
  let ?Z1 = "zip (keys' q1) (priorities' q1)"
  have frz: "\<forall>m. (m < 1 \<or> 1 + n \<le> m) \<and> m < length ?Z1 \<longrightarrow> zip K' P' ! m = ?Z1 ! m"
    using r(2,3,7) fr by auto
  have s1: "mset (map ((!) (zip K' P')) [1..<1 + n]) = mset (map ((!) ?Z1) [1..<1 + n])"
    by (rule slice_mset_cong) (use r(2,3,6) fr frz assms in \<open>simp_all add: n_def\<close>)
  have s2: "map ((!) ?Z1) [1..<1 + n] = map (stored_in ?q) (zip ks ps)"
  proof (rule nth_equalityI)
    have "length [1..<1 + n] = n" by (simp only: length_upt add_diff_cancel_left')
    then show "length (map ((!) ?Z1) [1..<1 + n]) = length (map (stored_in ?q) (zip ks ps))"
      using assms by (simp only: length_map length_zip n_def min.idem)
  next
    fix i assume "i < length (map ((!) ?Z1) [1..<1 + n])"
    then have i: "i < n" by (simp del: upt_Suc)
    then have "?Z1 ! (1 + i) = stored_in ?q (ks ! i, ps ! i)"
      using nth [of "1 + i"] fr assms unfolding st by (simp add: n_def)
    then show "map ((!) ?Z1) [1..<1 + n] ! i = map (stored_in ?q) (zip ks ps) ! i"
      using i assms by (simp add: n_def del: upt_Suc)
  qed
  have e: "keys' ?q = K'" "priorities' ?q = P'" "hasPoppedElement' ?q = False" "length' ?q = n"
    by (simp_all add: fr)
  have lp: "live_pairs ?q = map ((!) (zip K' P')) [1..<1 + n]"
    using live_pairs_map [OF w] unfolding e by (simp only: if_False)
  have m: "mset (live_pairs ?q) = mset (map (stored_in ?q) (zip ks ps))"
    by (simp only: lp s1 s2)
  have h: "heap_ok ?q \<and> nan_free ?q" if a: "\<forall>p \<in> set ps. store pt (Num p) \<noteq> NaN"
  proof -
    have "priorities' q1 ! m \<noteq> NaN" if "1 \<le> m" "m \<le> n" for m
    proof -
      have "ps ! (m - 1) \<in> set ps" using that assms by (simp add: n_def)
      then show ?thesis using nth [OF that] a by simp
    qed
    then have nn: "nonan (priorities' q1) n" by (simp add: nonan_def)
    have "\<forall>k>n div 2. node_ok (priorities' q1) n k" by (auto simp: node_ok_def)
    with r(8) nn have b: "\<forall>k\<ge>1. node_ok P' n k" "nonan P' n" by simp_all
    have oc: "occupied ?q = n" using fr by (simp add: occupied_def)
    have "heap_ok ?q"
    proof (rule heap_okI)
      show "occupied ?q < length (priorities' ?q)" using oc r(3) assms by (simp add: n_def)
      show "nonan (priorities' ?q) (occupied ?q)" using b(2) oc by simp
      show "heap_upto (priorities' ?q) (occupied ?q)" using b(1) oc by (simp add: heap_upto_node)
    qed
    moreover have "nan_free ?q" using nan_free_clean [OF w] b(2) fr by simp
    ultimately show ?thesis by simp
  qed
  show ?thesis
    apply (rule exI [where x = ?q])
    using res w h m fr by (simp add: n_def)
qed

lemma constructor_Inr:
  "constructor c ks ps kt pt = Some (Inr q) \<Longrightarrow> length ks = length ps \<and> length ks \<le> c"
  by (auto simp: constructor_def Let_def split: if_splits)

section \<open>The dump and the reachable states\<close>

lemma dump_loop_spec:
  assumes "i \<le> length result" "length result \<le> length' q"
  shows "dump_loop i q result =
           take i result @ map (\<lambda>j. rd (priorities' q) (j + ROOT_INDEX)) [i..<length' q]"
  using assms
proof (induction i q result rule: dump_loop.induct)
  case (1 i q result)
  let ?f = "\<lambda>j. rd (priorities' q) (j + ROOT_INDEX)"
  show ?case
  proof (cases "i < length' q")
    case False
    then have "dump_loop i q result = result" by (subst dump_loop.simps) simp
    then show ?thesis using False "1.prems" by simp
  next
    case True
    let ?r = "array_set result i (?f i)"
    have e: "dump_loop i q result = dump_loop (i + 1) q ?r"
      using True by (subst dump_loop.simps) simp
    have l: "i + 1 \<le> length ?r" "length ?r \<le> length' q" and t: "take (i + 1) ?r = take i result @ [?f i]"
      using "1.prems" True by (auto simp: array_set_def take_Suc_conv_app_nth)
    have "dump_loop (i + 1) q ?r = take (i + 1) ?r @ map ?f [i + 1..<length' q]"
      by (rule "1.IH" [OF True l])
    then show ?thesis
      unfolding e t using True by (simp add: upt_conv_Cons)
  qed
qed

lemma dump_state: "dumpRawPriorities q = Some (s, q') \<Longrightarrow> removePoppedElement q = Some q'"
  by (auto simp: dumpRawPriorities_def split: Option.bind_splits sum.splits)

lemma dump_spec:
  assumes r: "removePoppedElement q = Some q'" and w: "wfq q'" and c: "\<not> hasPoppedElement' q'"
    and b: "capacity' q' < 2 ^ 31"
  shows "dumpRawPriorities q =
           Some (if length' q' = 0 then Inl InvalidArrayLength
                 else Inr (''['' @ join '' '' (map (\<lambda>kp. Num (snd kp)) (live_pairs q')) @ '']''),
                 q')"
proof (cases "length' q' = 0")
  case True
  then show ?thesis by (simp add: dumpRawPriorities_def r Array_def ROOT_INDEX_def)
next
  case False
  define n where "n = length' q'"
  have n: "0 < n" "n \<le> capacity' q'" "length (priorities' q') = capacity' q' + 1"
    "length (keys' q') = capacity' q' + 1"
    using False wf_lengths [OF w] by (simp_all add: n_def)
  have "int n - 1 < 2 ^ 32" using n(2) b by simp
  then have a: "Array (int n - int ROOT_INDEX) = Inr (replicate (n - 1) Undefined)"
    using n by (auto simp: Array_def ROOT_INDEX_def nat_diff_distrib')
  have d: "dump_loop 0 q' (replicate (n - 1) Undefined) =
      map (\<lambda>j. rd (priorities' q') (j + ROOT_INDEX)) [0..<n]"
    using dump_loop_spec [of 0 "replicate (n - 1) Undefined" q'] by (simp add: n_def)
  have lp: "live_pairs q' = map ((!) (zip (keys' q') (priorities' q'))) [1..<1 + n]"
    using live_pairs_map [OF w] c by (simp add: n_def del: upt_Suc)
  have m: "map (\<lambda>j. rd (priorities' q') (j + ROOT_INDEX)) [0..<n] =
        map (\<lambda>kp. Num (snd kp)) (live_pairs q')"
    unfolding lp
    by (rule nth_equalityI) (use n in \<open>simp_all add: rd_in ROOT_INDEX_def del: upt_Suc\<close>)
  show ?thesis
    using False a d m by (simp add: dumpRawPriorities_def r n_def [symmetric])
qed

lemma clear_inv: "wfq q \<Longrightarrow> wfq (clear q) \<and> heap_ok (clear q) \<and> nan_free (clear q)"
  by (simp add: wfq_def clear_def heap_ok_def occupied_def ROOT_INDEX_def nan_free_def
      live_pairs_def)

lemma reachable_wf: "reachable q \<Longrightarrow> wfq q \<and> capacity' q < 2 ^ 31"
proof (induction rule: reachable.induct)
  case (r_new c ks ps kt pt q)
  from constructor_Inr [OF r_new(2)] have "length ks = length ps" "length ks \<le> c" by simp_all
  from constructor_spec [OF this, of kt pt] r_new show ?case by auto
next
  case (r_push q key priority r q')
  show ?case
  proof (cases "length' q = capacity' q")
    case True
    then show ?thesis using r_push by (simp add: push_full)
  next
    case False
    from push_spec [of q key priority] r_push False show ?thesis by auto
  qed
next
  case (r_pop q x q')
  show ?case
  proof (cases "length' q = 0")
    case True
    then show ?thesis using r_pop by (simp add: pop_empty)
  next
    case False
    then have "0 < length' q" by simp
    from pop_spec [of q] r_pop this show ?thesis by auto
  qed
next
  case (r_peek q x q')
  then have "removePoppedElement q = Some q'" by (auto simp: peek_def split: Option.bind_splits)
  with removePoppedElement_spec [of q] r_peek show ?case by auto
next
  case (r_peekPriority q x q')
  then have "removePoppedElement q = Some q'" by (auto simp: peekPriority_def split: Option.bind_splits)
  with removePoppedElement_spec [of q] r_peekPriority show ?case by auto
next
  case (r_clear q)
  then show ?case using clear_inv [of q] by (simp add: clear_def)
next
  case (r_dump q s q')
  from dump_state [OF r_dump(2)] removePoppedElement_spec [of q] r_dump show ?case by auto
qed

section \<open>The client loops\<close>

lemma stored_in_cong:
  "keysType' q' = keysType' q \<Longrightarrow> prioritiesType' q' = prioritiesType' q \<Longrightarrow>
   stored_in q' = stored_in q"
  by (rule ext) (simp add: stored_in_def)

lemma push_all_spec:
  assumes "wfq q" "length' q + length kps \<le> capacity' q"
  shows "\<exists>q'. push_all kps q = Some (Inr (), q') \<and> wfq q' \<and>
           capacity' q' = capacity' q \<and> length' q' = length' q + length kps \<and>
           keysType' q' = keysType' q \<and> prioritiesType' q' = prioritiesType' q \<and>
           mset (live_pairs q') = mset (live_pairs q) + mset (map (stored_in q) kps) \<and>
           (heap_ok q \<and> nan_free q \<and> (\<forall>kp \<in> set kps. snd (stored_in q kp) \<noteq> NaN) \<longrightarrow>
              heap_ok q' \<and> nan_free q')"
  using assms
proof (induction kps arbitrary: q)
  case Nil
  then show ?case by simp
next
  case (Cons kp kps)
  obtain key priority where kp: "kp = (key, priority)" by (cases kp)
  have room: "length' q \<noteq> capacity' q" using Cons.prems(2) by simp
  from push_spec [OF Cons.prems(1) room, of key priority]
  obtain q1 where r: "push key priority q = Some (Inr (), q1)" "wfq q1"
      "length' q1 = length' q + 1" "capacity' q1 = capacity' q"
      "keysType' q1 = keysType' q" "prioritiesType' q1 = prioritiesType' q"
      "mset (live_pairs q1) = add_mset (stored_in q (key, priority)) (mset (live_pairs q))"
      "heap_ok q \<and> nan_free q \<and> snd (stored_in q (key, priority)) \<noteq> NaN \<longrightarrow>
         heap_ok q1 \<and> nan_free q1"
    by blast
  have st: "stored_in q1 = stored_in q" by (rule stored_in_cong [OF r(5,6)])
  have "length' q1 + length kps \<le> capacity' q1" using r(3,4) Cons.prems(2) by simp
  from Cons.IH [OF r(2) this]
  obtain q' where s: "push_all kps q1 = Some (Inr (), q')" "wfq q'"
      "capacity' q' = capacity' q1" "length' q' = length' q1 + length kps"
      "keysType' q' = keysType' q1" "prioritiesType' q' = prioritiesType' q1"
      "mset (live_pairs q') = mset (live_pairs q1) + mset (map (stored_in q1) kps)"
      "heap_ok q1 \<and> nan_free q1 \<and> (\<forall>kp \<in> set kps. snd (stored_in q1 kp) \<noteq> NaN) \<longrightarrow>
         heap_ok q' \<and> nan_free q'"
    by blast
  have res: "push_all (kp # kps) q = Some (Inr (), q')" using r(1) s(1) by (simp add: kp)
  have h: "heap_ok q' \<and> nan_free q'"
    if "heap_ok q \<and> nan_free q \<and> (\<forall>x \<in> set (kp # kps). snd (stored_in q x) \<noteq> NaN)"
    using that r(8) s(8) unfolding st kp by simp
  show ?case
    apply (rule exI [where x = q'])
    using res s(2-7) r(3-7) h unfolding st kp by simp
qed

lemma pop_until_empty_spec:
  assumes "wfq q"
  shows "\<exists>out q'. pop_until_empty q = Some (out, q') \<and> size_q q' = 0 \<and>
           mset out = mset (map as_read (live_pairs q)) \<and>
           (heap_ok q \<and> nan_free q \<longrightarrow> sorted_wrt priority_le out)"
  using assms
proof (induction "length' q" arbitrary: q rule: less_induct)
  case less
  show ?case
  proof (cases "length' q = 0")
    case True
    then have "pop_until_empty q = Some ([], q)"
      by (subst pop_until_empty.simps) (simp add: size_q_def)
    then show ?thesis using True by (simp add: size_q_def live_pairs_def)
  next
    case False
    then have ne: "0 < length' q" by simp
    from removePoppedElement_spec [OF less.prems]
    obtain q1 where r: "removePoppedElement q = Some q1" "wfq q1"
        "\<not> hasPoppedElement' q1" "length' q1 = length' q"
        "mset (live_pairs q1) = mset (live_pairs q)"
        "heap_ok q \<and> nan_free q \<longrightarrow> heap_ok q1 \<and> nan_free q1"
      by blast
    have pk: "peekPriority q = Some (rd (priorities' q1) ROOT_INDEX, q1)"
      using r(1) by (simp add: peekPriority_def)
    have ne1: "0 < length' q1" using ne r(4) by simp
    from pop_spec [OF r(2) ne1]
    obtain kp q2 where p: "pop q1 = Some (fst (as_read kp), q2)" "wfq q2"
        "length' q2 = length' q1 - 1"
        "mset (live_pairs q1) = add_mset kp (mset (live_pairs q2))"
        "heap_ok q1 \<and> nan_free q1 \<longrightarrow>
              heap_ok q2 \<and> nan_free q2 \<and> snd kp \<noteq> NaN \<and>
              (\<forall>x \<in> set (live_pairs q2). snd kp \<le> snd x)"
        "\<forall>q1'. removePoppedElement q1 = Some q1' \<longrightarrow>
              rd (priorities' q1') ROOT_INDEX = snd (as_read kp)"
      by blast
    have pr: "rd (priorities' q1) ROOT_INDEX = snd (as_read kp)"
      using p(6) removePoppedElement_clean [OF r(3)] by simp
    have "length' q2 < length' q" using p(3) r(4) ne by simp
    from less.hyps [OF this p(2)]
    obtain out q' where s: "pop_until_empty q2 = Some (out, q')" "size_q q' = 0"
        "mset out = mset (map as_read (live_pairs q2))"
        "heap_ok q2 \<and> nan_free q2 \<longrightarrow> sorted_wrt priority_le out"
      by blast
    have res: "pop_until_empty q = Some (as_read kp # out, q')"
      using ne pk p(1) s(1) pr
      by (subst pop_until_empty.simps) (simp add: size_q_def)
    have so: "sorted_wrt priority_le (as_read kp # out)" if a: "heap_ok q \<and> nan_free q"
    proof -
      have b: "heap_ok q2" "nan_free q2" "snd kp \<noteq> NaN"
          "\<forall>x \<in> set (live_pairs q2). snd kp \<le> snd x"
        using a r(6) p(5) by simp_all
      have "set out = as_read ` set (live_pairs q2)"
        using s(3) by (metis set_mset_mset set_map)
      moreover have "priority_le (as_read kp) (as_read x)" if "x \<in> set (live_pairs q2)" for x
      proof -
        have "snd x \<in> snd ` set (live_pairs q2)" using that by (rule imageI)
        then have "snd x \<noteq> NaN" using b(2) unfolding nan_free_def by metis
        then show ?thesis using b(3,4) that
          by (simp add: priority_le_def as_read_def num_cmp_nonan)
      qed
      ultimately have "\<forall>y \<in> set out. priority_le (as_read kp) y" by auto
      then show ?thesis using s(4) b(1,2) by simp
    qed
    have "mset (map as_read (live_pairs q)) = image_mset as_read (mset (live_pairs q))"
      by simp
    also have "\<dots> = image_mset as_read (add_mset kp (mset (live_pairs q2)))"
      by (simp only: r(5) [symmetric] p(4))
    also have "\<dots> = add_mset (as_read kp) (mset (map as_read (live_pairs q2)))"
      by simp
    also have "\<dots> = mset (as_read kp # out)"
      by (simp add: s(3))
    finally have m: "mset (as_read kp # out) = mset (map as_read (live_pairs q))"
      by simp
    show ?thesis
      apply (rule exI [where x = "as_read kp # out"])
      apply (rule exI [where x = q'])
      using res s(2) so m by simp
  qed
qed

section \<open>The example states are reachable\<close>

lemma example_empty_reachable: "reachable example_empty"
proof -
  have "constructor 2 [] [] Uint32Array Uint32Array = Some (Inr example_empty)" by code_simp
  moreover have "(2::nat) < 2 ^ 31" by simp
  ultimately show ?thesis by (rule r_new [rotated])
qed

lemma example_single_reachable: "reachable example_single"
proof -
  have "push (Fin 1) (Fin 3) example_empty = Some (Inr (), example_single)" by code_simp
  then show ?thesis by (rule r_push [OF example_empty_reachable])
qed

lemma example_full_reachable: "reachable example_full"
proof -
  have "push (Fin 2) (Fin 5) example_single = Some (Inr (), example_full)" by code_simp
  then show ?thesis by (rule r_push [OF example_single_reachable])
qed

lemma example_pending_reachable: "reachable example_pending"
proof -
  have "pop example_full = Some (Num (Fin 1), example_pending)" by code_simp
  then show ?thesis by (rule r_pop [OF example_full_reachable])
qed

lemma example_float_reachable: "reachable example_float"
proof -
  let ?new = "\<lparr>capacity' = 2, keysType' = Uint32Array, keys' = [Fin 0, Fin 0, Fin 0],
      prioritiesType' = Float64Array, priorities' = [Fin 0, Fin 0, Fin 0], length' = 0,
      hasPoppedElement' = False\<rparr>"
  have "constructor 2 [] [] Uint32Array Float64Array = Some (Inr ?new)" by code_simp
  moreover have "(2::nat) < 2 ^ 31" by simp
  ultimately have "reachable ?new" by (rule r_new [rotated])
  moreover have "push (Fin 1) (Fin 10) ?new = Some (Inr (), example_float)" by code_simp
  ultimately show ?thesis by (rule r_push)
qed

lemma example_float8_reachable: "reachable example_float8"
proof -
  have "constructor 8 [] [] Uint32Array Float64Array = Some (Inr example_float8)" by code_simp
  moreover have "(8::nat) < 2 ^ 31" by simp
  ultimately show ?thesis by (rule r_new [rotated])
qed

lemma empty_heap: "length' q = 0 \<Longrightarrow> heap_ok q \<and> nan_free q"
  by (simp add: heap_ok_def occupied_def ROOT_INDEX_def nan_free_def live_pairs_def)
section \<open>The claims\<close>

text \<open>
  C1, as the code has it. From a reachable state whose occupied positions are in heap
  order and whose live priorities are not NaN, \<open>push\<close> and \<open>pop\<close> both return; \<open>push\<close>
  completes normally exactly when the queue is not full. In the state \<open>pop\<close> leaves, and in
  the state \<open>push\<close> leaves when the priority it stores is not NaN,
  \<open>priorities[i >>> 1] <= priorities[i]\<close> holds at every occupied index \<open>i\<close> above the root
  and no live priority is NaN, the occupied positions being \<open>1..length\<close>, or
  \<open>1..length+1\<close> while a deletion is pending.
\<close>

theorem heap_order_preserved:
  assumes "reachable q" and "heap_ok q" and "nan_free q"
  shows "\<exists>r q1 x q2. push key priority q = Some (r, q1) \<and>
           (r = Inr () \<longleftrightarrow> length' q \<noteq> capacity' q) \<and>
           (snd (stored_in q (key, priority)) \<noteq> NaN \<longrightarrow> heap_ok q1 \<and> nan_free q1) \<and>
           pop q = Some (x, q2) \<and> heap_ok q2 \<and> nan_free q2"
proof -
  have w: "wfq q" using reachable_wf [OF assms(1)] by simp
  have a: "\<exists>r q1. push key priority q = Some (r, q1) \<and>
           (r = Inr () \<longleftrightarrow> length' q \<noteq> capacity' q) \<and>
           (snd (stored_in q (key, priority)) \<noteq> NaN \<longrightarrow> heap_ok q1 \<and> nan_free q1)"
  proof (cases "length' q = capacity' q")
    case True
    then show ?thesis using assms(2,3) by (simp add: push_full)
  next
    case False
    from push_spec [OF w False, of key priority] False assms(2,3) show ?thesis by auto
  qed
  have b: "\<exists>x q2. pop q = Some (x, q2) \<and> heap_ok q2 \<and> nan_free q2"
  proof (cases "length' q = 0")
    case True
    then show ?thesis using assms(2,3) by (simp add: pop_empty)
  next
    case False
    then have "0 < length' q" by simp
    from pop_spec [OF w this] assms(2,3) show ?thesis by blast
  qed
  from a b show ?thesis by blast
qed

theorem heap_order_preserved_witness:
  "reachable example_float \<and> heap_ok example_float \<and> nan_free example_float \<and>
   snd (stored_in example_float (Fin 2, Fin 5)) \<noteq> NaN \<and>
   (\<exists>r q1 x q2. push (Fin 2) (Fin 5) example_float = Some (r, q1) \<and>
           (r = Inr () \<longleftrightarrow> length' example_float \<noteq> capacity' example_float) \<and>
           heap_ok q1 \<and> nan_free q1 \<and>
           pop example_float = Some (x, q2) \<and> heap_ok q2 \<and> nan_free q2)"
proof -
  have h: "heap_ok example_float" and n: "nan_free example_float"
    and s: "snd (stored_in example_float (Fin 2, Fin 5)) \<noteq> NaN"
    by code_simp+
  show ?thesis
    using example_float_reachable h n s
      heap_order_preserved [OF example_float_reachable h n, of "Fin 2" "Fin 5"]
    by blast
qed

text \<open>
  C1 as stated fails where a priority is NaN. \<open>example_float\<close> is reachable and in heap
  order; \<open>push(2, NaN)\<close> completes normally and leaves \<open>priorities[1] = NaN\<close> above
  \<open>priorities[2] = 10\<close>, where \<open>priorities[1] <= priorities[2]\<close> is false.
\<close>

theorem heap_order_lost_with_nan:
  "reachable example_float \<and> heap_ok example_float \<and>
   push (Fin 2) NaN example_float = Some (Inr (), example_float_nan) \<and>
   \<not> heap_ok example_float_nan"
proof -
  have "heap_ok example_float" by code_simp
  moreover have "push (Fin 2) NaN example_float = Some (Inr (), example_float_nan)" by code_simp
  moreover have "\<not> heap_ok example_float_nan" by code_simp
  ultimately show ?thesis using example_float_reachable by simp
qed

text \<open>
  C4. On a queue whose length equals its capacity, \<open>push\<close> raises the capacity error
  and leaves the whole state as it was: size, pending flag and both backing arrays.
\<close>

theorem push_at_capacity:
  assumes "length' q = capacity' q"
  shows "push key priority q = Some (Inl HeapReachedCapacity, q)"
  using assms by (simp add: push_def)

theorem push_at_capacity_witness:
  "length' example_full = capacity' example_full \<and>
   push (Fin 9) (Fin 4) example_full = Some (Inl HeapReachedCapacity, example_full)"
proof -
  have h: "length' example_full = capacity' example_full" by (simp add: example_full_def)
  show ?thesis using h push_at_capacity [OF h, of "Fin 9" "Fin 4"] by simp
qed

text \<open>
  C5. \<open>pop\<close> on a queue of length 0 raises nothing, returns \<open>undefined\<close>, and leaves the
  whole state as it was.
\<close>

theorem pop_on_empty:
  assumes "length' q = 0"
  shows "pop q = Some (Undefined, q)"
  using assms by (simp add: pop_def)

theorem pop_on_empty_witness:
  "length' example_empty = 0 \<and> pop example_empty = Some (Undefined, example_empty)"
proof -
  have h: "length' example_empty = 0" by (simp add: example_empty_def)
  show ?thesis using h pop_on_empty [OF h] by simp
qed

text \<open>
  C2, as the code has it. After any sequence of \<open>push\<close> calls into an empty queue, none
  exceeding the capacity, popping until the queue is empty returns exactly the pushed
  pairs as stored; and when no pushed priority is stored as NaN, the keys come by
  non-decreasing priority: the stored priority of each popped key, read with
  \<open>peekPriority\<close> just before its \<open>pop\<close>, is \<open><=\<close> that of every key popped after it.
\<close>

theorem pops_in_priority_order:
  assumes "reachable q0" and "size_q q0 = 0" and "length kps \<le> capacity q0"
  shows "\<exists>q1 out q2. push_all kps q0 = Some (Inr (), q1) \<and>
           pop_until_empty q1 = Some (out, q2) \<and> size_q q2 = 0 \<and>
           mset out = mset (map (\<lambda>kp. as_read (stored_in q0 kp)) kps) \<and>
           ((\<forall>kp \<in> set kps. snd (stored_in q0 kp) \<noteq> NaN) \<longrightarrow> sorted_wrt priority_le out)"
proof -
  have w: "wfq q0" using reachable_wf [OF assms(1)] by simp
  have z: "length' q0 = 0" using assms(2) by (simp add: size_q_def)
  have e: "live_pairs q0 = []" using z by (simp add: live_pairs_def)
  have "length' q0 + length kps \<le> capacity' q0"
    using assms(3) z by (simp add: capacity_def)
  from push_all_spec [OF w this]
  obtain q1 where p: "push_all kps q0 = Some (Inr (), q1)" "wfq q1"
      "mset (live_pairs q1) = mset (live_pairs q0) + mset (map (stored_in q0) kps)"
      "heap_ok q0 \<and> nan_free q0 \<and> (\<forall>kp \<in> set kps. snd (stored_in q0 kp) \<noteq> NaN) \<longrightarrow>
         heap_ok q1 \<and> nan_free q1"
    by blast
  from pop_until_empty_spec [OF p(2)]
  obtain out q2 where d: "pop_until_empty q1 = Some (out, q2)" "size_q q2 = 0"
      "mset out = mset (map as_read (live_pairs q1))"
      "heap_ok q1 \<and> nan_free q1 \<longrightarrow> sorted_wrt priority_le out"
    by blast
  have "mset (map as_read (live_pairs q1)) = image_mset as_read (mset (live_pairs q1))"
    by simp
  also have "\<dots> = image_mset as_read (mset (map (stored_in q0) kps))"
    by (simp only: p(3) e) simp
  also have "\<dots> = mset (map (\<lambda>kp. as_read (stored_in q0 kp)) kps)"
    by (simp add: multiset.map_comp comp_def)
  finally have m: "mset out = mset (map (\<lambda>kp. as_read (stored_in q0 kp)) kps)"
    using d(3) by simp
  have s: "(\<forall>kp \<in> set kps. snd (stored_in q0 kp) \<noteq> NaN) \<longrightarrow> sorted_wrt priority_le out"
    using p(4) d(4) empty_heap [OF z] by blast
  from p(1) d(1,2) m s show ?thesis by blast
qed

theorem pops_in_priority_order_witness:
  "reachable example_float8 \<and> size_q example_float8 = 0 \<and>
   length [(Fin 1, Fin 10), (Fin 2, Fin 20), (Fin 3, Fin 15), (Fin 6, Fin 5)]
     \<le> capacity example_float8 \<and>
   snd (stored_in example_float8 (Fin 1, Fin 10)) \<noteq> NaN \<and>
   snd (stored_in example_float8 (Fin 2, Fin 20)) \<noteq> NaN \<and>
   snd (stored_in example_float8 (Fin 3, Fin 15)) \<noteq> NaN \<and>
   snd (stored_in example_float8 (Fin 6, Fin 5)) \<noteq> NaN \<and>
   (\<exists>q1 out q2.
      push_all [(Fin 1, Fin 10), (Fin 2, Fin 20), (Fin 3, Fin 15), (Fin 6, Fin 5)]
        example_float8 = Some (Inr (), q1) \<and>
      pop_until_empty q1 = Some (out, q2) \<and> size_q q2 = 0 \<and>
      mset out = mset (map (\<lambda>kp. as_read (stored_in example_float8 kp))
                   [(Fin 1, Fin 10), (Fin 2, Fin 20), (Fin 3, Fin 15), (Fin 6, Fin 5)]) \<and>
      sorted_wrt priority_le out) \<and>
   (case push_all [(Fin 1, Fin 10), (Fin 2, Fin 20), (Fin 3, Fin 15), (Fin 6, Fin 5)]
           example_float8 of
      None \<Rightarrow> None
    | Some (r, q1) \<Rightarrow> map_option fst (pop_until_empty q1)) =
     Some [(Num (Fin 6), Num (Fin 5)), (Num (Fin 1), Num (Fin 10)),
           (Num (Fin 3), Num (Fin 15)), (Num (Fin 2), Num (Fin 20))]"
proof -
  let ?kps = "[(Fin 1, Fin 10), (Fin 2, Fin 20), (Fin 3, Fin 15), (Fin 6, Fin 5)]"
  have s: "size_q example_float8 = 0" by (simp add: example_float8_def size_q_def)
  have l: "length ?kps \<le> capacity example_float8"
    by (simp add: example_float8_def capacity_def)
  have n: "\<forall>kp \<in> set ?kps. snd (stored_in example_float8 kp) \<noteq> NaN" by code_simp
  have n': "snd (stored_in example_float8 (Fin 1, Fin 10)) \<noteq> NaN"
    "snd (stored_in example_float8 (Fin 2, Fin 20)) \<noteq> NaN"
    "snd (stored_in example_float8 (Fin 3, Fin 15)) \<noteq> NaN"
    "snd (stored_in example_float8 (Fin 6, Fin 5)) \<noteq> NaN"
    by code_simp+
  have e: "(case push_all ?kps example_float8 of
      None \<Rightarrow> None
    | Some (r, q1) \<Rightarrow> map_option fst (pop_until_empty q1)) =
     Some [(Num (Fin 6), Num (Fin 5)), (Num (Fin 1), Num (Fin 10)),
           (Num (Fin 3), Num (Fin 15)), (Num (Fin 2), Num (Fin 20))]"
    by code_simp
  show ?thesis
    using example_float8_reachable s l n n' e
      pops_in_priority_order [OF example_float8_reachable s l]
    by blast
qed

text \<open>
  C2 as stated fails where a pushed priority is NaN. Into the empty \<open>example_float8\<close> the
  eight pushes of \<open>example_nan_pushes\<close> all succeed; popping until the queue is empty then
  returns key 2, of priority 20, before key 3, of priority 15.
\<close>

theorem pops_out_of_order_with_nan:
  "reachable example_float8 \<and> size_q example_float8 = 0 \<and>
   length example_nan_pushes \<le> capacity example_float8 \<and>
   push_all example_nan_pushes example_float8 = Some (Inr (), example_float8_pushed) \<and>
   pop_until_empty example_float8_pushed = Some (example_nan_popped, example_float8_drained) \<and>
   \<not> sorted_wrt priority_le example_nan_popped"
proof -
  have "size_q example_float8 = 0" by code_simp
  moreover have "length example_nan_pushes \<le> capacity example_float8" by code_simp
  moreover have "push_all example_nan_pushes example_float8 = Some (Inr (), example_float8_pushed)"
    by code_simp
  moreover have "pop_until_empty example_float8_pushed =
      Some (example_nan_popped, example_float8_drained)"
    by code_simp
  moreover have "\<not> sorted_wrt priority_le example_nan_popped" by code_simp
  ultimately show ?thesis using example_float8_reachable by simp
qed

text \<open>
  C3. \<open>push\<close> on a queue that is not full does what the algorithm of the spec says:
  seen as slots, length and pending flag, the queue it leaves is the one \<open>spec_push\<close>
  computes from the queue it found and the new pair as stored. With a deletion pending
  that is: overwrite the root slot with the new pair, increment the length, bubble down
  from the root, clear the flag; otherwise: write the pair at position \<open>length + 1\<close>,
  increment the length, bubble up from there. The capacity and the kinds and lengths of
  the arrays stay as they were, and the logical content afterwards is the previous
  content plus the new pair as stored. The bubbling repairs the heap: from a queue in
  heap order with no live priority NaN, a pair whose stored priority is not NaN leaves
  a queue in heap order.
\<close>

theorem push_algorithm:
  assumes "reachable q" and "length' q \<noteq> capacity' q"
  shows "\<exists>q'. push key priority q = Some (Inr (), q') \<and>
           heap_of q' = spec_push (stored_in q (key, priority)) (heap_of q) \<and>
           capacity' q' = capacity' q \<and>
           keysType' q' = keysType' q \<and> prioritiesType' q' = prioritiesType' q \<and>
           length (keys' q') = length (keys' q) \<and>
           length (priorities' q') = length (priorities' q) \<and>
           mset (live_pairs q') = add_mset (stored_in q (key, priority)) (mset (live_pairs q)) \<and>
           (heap_ok q \<and> nan_free q \<and> snd (stored_in q (key, priority)) \<noteq> NaN \<longrightarrow>
              heap_ok q')"
proof -
  have w: "wfq q" using reachable_wf [OF assms(1)] by simp
  from push_spec [OF w assms(2), of key priority]
  obtain q' where p: "push key priority q = Some (Inr (), q')" "wfq q'"
      "capacity' q' = capacity' q"
      "keysType' q' = keysType' q" "prioritiesType' q' = prioritiesType' q"
      "heap_of q' = spec_push (stored_in q (key, priority)) (heap_of q)"
      "mset (live_pairs q') = add_mset (stored_in q (key, priority)) (mset (live_pairs q))"
      "heap_ok q \<and> nan_free q \<and> snd (stored_in q (key, priority)) \<noteq> NaN \<longrightarrow>
         heap_ok q' \<and> nan_free q'"
    by blast
  have "length (keys' q') = length (keys' q)" "length (priorities' q') = length (priorities' q)"
    using wf_lengths(1,2) [OF w] wf_lengths(1,2) [OF p(2)] p(3) by simp_all
  with p show ?thesis by blast
qed

theorem push_algorithm_witness:
  "reachable example_pending \<and> length' example_pending \<noteq> capacity' example_pending \<and>
   heap_ok example_pending \<and> nan_free example_pending \<and>
   snd (stored_in example_pending (Fin 7, Fin 100)) \<noteq> NaN \<and>
   (\<exists>q'. push (Fin 7) (Fin 100) example_pending = Some (Inr (), q') \<and>
      heap_of q' = spec_push (stored_in example_pending (Fin 7, Fin 100)) (heap_of example_pending) \<and>
      capacity' q' = capacity' example_pending \<and>
      keysType' q' = keysType' example_pending \<and>
      prioritiesType' q' = prioritiesType' example_pending \<and>
      length (keys' q') = length (keys' example_pending) \<and>
      length (priorities' q') = length (priorities' example_pending) \<and>
      mset (live_pairs q') =
        add_mset (stored_in example_pending (Fin 7, Fin 100)) (mset (live_pairs example_pending)) \<and>
      heap_ok q') \<and>
   push (Fin 7) (Fin 100) example_pending =
     Some (Inr (), \<lparr>capacity' = 2, keysType' = Uint32Array, keys' = [Fin 0, Fin 2, Fin 7],
        prioritiesType' = Uint32Array, priorities' = [Fin 0, Fin 5, Fin 100], length' = 2,
        hasPoppedElement' = False\<rparr>) \<and>
   reachable example_single \<and> length' example_single \<noteq> capacity' example_single \<and>
   heap_ok example_single \<and> nan_free example_single \<and>
   snd (stored_in example_single (Fin 9, Fin 1)) \<noteq> NaN \<and>
   (\<exists>q'. push (Fin 9) (Fin 1) example_single = Some (Inr (), q') \<and>
      heap_of q' = spec_push (stored_in example_single (Fin 9, Fin 1)) (heap_of example_single) \<and>
      capacity' q' = capacity' example_single \<and>
      keysType' q' = keysType' example_single \<and>
      prioritiesType' q' = prioritiesType' example_single \<and>
      length (keys' q') = length (keys' example_single) \<and>
      length (priorities' q') = length (priorities' example_single) \<and>
      mset (live_pairs q') =
        add_mset (stored_in example_single (Fin 9, Fin 1)) (mset (live_pairs example_single)) \<and>
      heap_ok q') \<and>
   push (Fin 9) (Fin 1) example_single =
     Some (Inr (), \<lparr>capacity' = 2, keysType' = Uint32Array, keys' = [Fin 0, Fin 9, Fin 1],
        prioritiesType' = Uint32Array, priorities' = [Fin 0, Fin 1, Fin 3], length' = 2,
        hasPoppedElement' = False\<rparr>)"
proof -
  have h: "length' example_pending \<noteq> capacity' example_pending"
    and g: "length' example_single \<noteq> capacity' example_single"
    by (simp_all add: example_pending_def example_single_def)
  have hp: "heap_ok example_pending" "nan_free example_pending"
      "snd (stored_in example_pending (Fin 7, Fin 100)) \<noteq> NaN"
    and gp: "heap_ok example_single" "nan_free example_single"
      "snd (stored_in example_single (Fin 9, Fin 1)) \<noteq> NaN"
    by code_simp+
  have e: "push (Fin 7) (Fin 100) example_pending =
     Some (Inr (), \<lparr>capacity' = 2, keysType' = Uint32Array, keys' = [Fin 0, Fin 2, Fin 7],
        prioritiesType' = Uint32Array, priorities' = [Fin 0, Fin 5, Fin 100], length' = 2,
        hasPoppedElement' = False\<rparr>)"
    by code_simp
  have f: "push (Fin 9) (Fin 1) example_single =
     Some (Inr (), \<lparr>capacity' = 2, keysType' = Uint32Array, keys' = [Fin 0, Fin 9, Fin 1],
        prioritiesType' = Uint32Array, priorities' = [Fin 0, Fin 1, Fin 3], length' = 2,
        hasPoppedElement' = False\<rparr>)"
    by code_simp
  have t: "\<exists>q'. push (Fin 7) (Fin 100) example_pending = Some (Inr (), q') \<and>
      heap_of q' = spec_push (stored_in example_pending (Fin 7, Fin 100)) (heap_of example_pending) \<and>
      capacity' q' = capacity' example_pending \<and>
      keysType' q' = keysType' example_pending \<and>
      prioritiesType' q' = prioritiesType' example_pending \<and>
      length (keys' q') = length (keys' example_pending) \<and>
      length (priorities' q') = length (priorities' example_pending) \<and>
      mset (live_pairs q') =
        add_mset (stored_in example_pending (Fin 7, Fin 100)) (mset (live_pairs example_pending)) \<and>
      heap_ok q'"
    using push_algorithm [OF example_pending_reachable h, of "Fin 7" "Fin 100"] hp by blast
  have u: "\<exists>q'. push (Fin 9) (Fin 1) example_single = Some (Inr (), q') \<and>
      heap_of q' = spec_push (stored_in example_single (Fin 9, Fin 1)) (heap_of example_single) \<and>
      capacity' q' = capacity' example_single \<and>
      keysType' q' = keysType' example_single \<and>
      prioritiesType' q' = prioritiesType' example_single \<and>
      length (keys' q') = length (keys' example_single) \<and>
      length (priorities' q') = length (priorities' example_single) \<and>
      mset (live_pairs q') =
        add_mset (stored_in example_single (Fin 9, Fin 1)) (mset (live_pairs example_single)) \<and>
      heap_ok q'"
    using push_algorithm [OF example_single_reachable g, of "Fin 9" "Fin 1"] gp by blast
  show ?thesis
    using example_pending_reachable h hp t e example_single_reachable g gp u f
    by (intro conjI)
qed

text \<open>
  C10. In every reachable state with a deletion pending the length is strictly below
  the capacity. So position \<open>length + 1\<close>, which \<open>removePoppedElement\<close> reads, lies inside
  both backing arrays, and a \<open>push\<close> through the pending branch succeeds without
  outgrowing them.
\<close>

theorem pending_slot_in_bounds:
  assumes "reachable q" and "hasPoppedElement' q"
  shows "length' q < capacity' q \<and>
         length' q + ROOT_INDEX < length (keys' q) \<and>
         length' q + ROOT_INDEX < length (priorities' q) \<and>
         rd (keys' q) (length' q + ROOT_INDEX) \<noteq> Undefined \<and>
         rd (priorities' q) (length' q + ROOT_INDEX) \<noteq> Undefined \<and>
         (\<exists>q'. push key priority q = Some (Inr (), q') \<and> length' q' \<le> capacity' q' \<and>
            length (keys' q') = length (keys' q) \<and>
            length (priorities' q') = length (priorities' q))"
proof -
  have w: "wfq q" using reachable_wf [OF assms(1)] by simp
  note l = wf_lengths [OF w]
  have lt: "length' q < capacity' q" using l(4) assms(2) by simp
  then have room: "length' q \<noteq> capacity' q" by simp
  from push_spec [OF w room, of key priority]
  obtain q' where p: "push key priority q = Some (Inr (), q')" "wfq q'" "capacity' q' = capacity' q"
    by blast
  note l' = wf_lengths [OF p(2)]
  show ?thesis
    using lt l(1,2) l'(1,2,3) p(1,3) by (auto simp: rd_def ROOT_INDEX_def)
qed

theorem pending_slot_in_bounds_witness:
  "reachable example_pending \<and> hasPoppedElement' example_pending \<and>
   length' example_pending < capacity' example_pending \<and>
   length' example_pending + ROOT_INDEX < length (keys' example_pending) \<and>
   length' example_pending + ROOT_INDEX < length (priorities' example_pending) \<and>
   rd (keys' example_pending) (length' example_pending + ROOT_INDEX) \<noteq> Undefined \<and>
   rd (priorities' example_pending) (length' example_pending + ROOT_INDEX) \<noteq> Undefined \<and>
   (\<exists>q'. push (Fin 7) (Fin 1) example_pending = Some (Inr (), q') \<and> length' q' \<le> capacity' q' \<and>
      length (keys' q') = length (keys' example_pending) \<and>
      length (priorities' q') = length (priorities' example_pending))"
proof -
  have p: "hasPoppedElement' example_pending" by (simp add: example_pending_def)
  show ?thesis
    using example_pending_reachable p
      pending_slot_in_bounds [OF example_pending_reachable p, of "Fin 7" "Fin 1"]
    by blast
qed

text \<open>What \<open>dumpRawPriorities\<close> does in a reachable state: it resolves a pending deletion,
  then throws on an empty queue and otherwise renders the live priorities.\<close>

lemma dump_reachable:
  assumes "reachable q"
  shows "\<exists>q'. removePoppedElement q = Some q' \<and>
           dumpRawPriorities q =
             Some (if length' q = 0 then Inl InvalidArrayLength
                   else Inr (''['' @ join '' '' (map (\<lambda>kp. Num (snd kp)) (live_pairs q')) @ '']''),
                   q')"
proof -
  have w: "wfq q" "capacity' q < 2 ^ 31" using reachable_wf [OF assms] by simp_all
  from removePoppedElement_spec [OF w(1)]
  obtain q' where r: "removePoppedElement q = Some q'" "wfq q'" "\<not> hasPoppedElement' q'"
      "length' q' = length' q" "capacity' q' = capacity' q"
    by blast
  have "capacity' q' < 2 ^ 31" using r(5) w(2) by simp
  from dump_spec [OF r(1,2,3) this] r(1,4) show ?thesis by simp
qed

text \<open>
  C6. The dump is to resolve a pending deletion and return the live priorities of
  positions \<open>1..length\<close> in array order as a bracketed, space-separated list, and an
  empty-queue marker when the length is 0. On the fresh queue \<open>new MinQueue(2)\<close> the code
  does not return: \<open>Array(this.length - ROOT_INDEX)\<close> is \<open>Array(-1)\<close>, a RangeError.
\<close>

theorem dump_of_empty_queue_throws:
  "constructor 2 [] [] Uint32Array Uint32Array = Some (Inr example_empty) \<and>
   size_q example_empty = 0 \<and>
   dumpRawPriorities example_empty = Some (Inl InvalidArrayLength, example_empty)"
  by code_simp

text \<open>
  C7. On a fresh queue of capacity 64, after \<open>push(1, 10)\<close>, \<open>push(2, 20)\<close>, \<open>push(3, 30)\<close>
  the dump is \<open>[10 20 30]\<close>; after \<open>push(4, 40)\<close> it is \<open>[10 20 30 40]\<close>; then \<open>pop()\<close>
  returns 1 and the dump is \<open>[20 40 30]\<close>.
\<close>

theorem trace_capacity_64:
  "constructor 64 [] [] Uint32Array Uint32Array \<bind> (\<lambda>r. case r of
       Inl e \<Rightarrow> None
     | Inr q \<Rightarrow> do {
         (r1, q) \<leftarrow> push (Fin 1) (Fin 10) q;
         (r2, q) \<leftarrow> push (Fin 2) (Fin 20) q;
         (r3, q) \<leftarrow> push (Fin 3) (Fin 30) q;
         (d1, q) \<leftarrow> dumpRawPriorities q;
         (r4, q) \<leftarrow> push (Fin 4) (Fin 40) q;
         (d2, q) \<leftarrow> dumpRawPriorities q;
         (x, q) \<leftarrow> pop q;
         (d3, q) \<leftarrow> dumpRawPriorities q;
         Some ([r1, r2, r3, r4], d1, d2, x, d3)
       }) =
   Some ([Inr (), Inr (), Inr (), Inr ()],
         Inr ''[10 20 30]'', Inr ''[10 20 30 40]'', Num (Fin 1), Inr ''[20 40 30]'')"
  by code_simp

text \<open>
  C9. \<open>popPush(key, priority)\<close> returns what \<open>pop()\<close> returns and leaves the state that
  \<open>pop()\<close> followed by \<open>push(key, priority)\<close> leaves. On a non-empty queue it never fails,
  also at full capacity; on an empty queue it behaves like \<open>push\<close> alone and returns
  \<open>undefined\<close>.
\<close>

theorem popPush_is_pop_then_push:
  assumes "reachable q"
  shows "popPush key priority q =
           (case pop q of
              None \<Rightarrow> None
            | Some (x, q1) \<Rightarrow>
                (case push key priority q1 of
                   None \<Rightarrow> None
                 | Some (r, q2) \<Rightarrow> Some (case r of Inl e \<Rightarrow> Inl e | Inr u \<Rightarrow> Inr x, q2))) \<and>
         (0 < length' q \<longrightarrow>
            (\<exists>x q1 q2. pop q = Some (x, q1) \<and> push key priority q1 = Some (Inr (), q2) \<and>
               popPush key priority q = Some (Inr x, q2))) \<and>
         (length' q = 0 \<longrightarrow>
            (\<exists>r q2. push key priority q = Some (r, q2) \<and>
               popPush key priority q =
                 Some (case r of Inl e \<Rightarrow> Inl e | Inr u \<Rightarrow> Inr Undefined, q2)))"
proof (intro conjI impI)
  show "popPush key priority q =
           (case pop q of
              None \<Rightarrow> None
            | Some (x, q1) \<Rightarrow>
                (case push key priority q1 of
                   None \<Rightarrow> None
                 | Some (r, q2) \<Rightarrow> Some (case r of Inl e \<Rightarrow> Inl e | Inr u \<Rightarrow> Inr x, q2)))"
    by (simp add: popPush_def split: option.split prod.split)
next
  have w: "wfq q" using reachable_wf [OF assms] by simp
  {
    assume ne: "0 < length' q"
    from pop_spec [OF w ne]
    obtain kp q1 where p: "pop q = Some (fst (as_read kp), q1)" "wfq q1"
        "length' q1 = length' q - 1" "capacity' q1 = capacity' q"
      by blast
    have "length' q \<le> capacity' q" using wf_lengths [OF w] by simp
    then have room: "length' q1 \<noteq> capacity' q1" using p(3,4) ne by simp
    from push_spec [OF p(2) room, of key priority]
    obtain q2 where s: "push key priority q1 = Some (Inr (), q2)" by blast
    have "popPush key priority q = Some (Inr (fst (as_read kp)), q2)"
      using p(1) s by (simp add: popPush_def)
    with p(1) s show "\<exists>x q1 q2. pop q = Some (x, q1) \<and> push key priority q1 = Some (Inr (), q2) \<and>
               popPush key priority q = Some (Inr x, q2)"
      by blast
  }
  {
    assume e: "length' q = 0"
    have "\<exists>r q2. push key priority q = Some (r, q2)"
    proof (cases "length' q = capacity' q")
      case True
      then show ?thesis by (simp add: push_full)
    next
      case False
      from push_spec [OF w False, of key priority] show ?thesis by blast
    qed
    then obtain r q2 where s: "push key priority q = Some (r, q2)" by blast
    have "popPush key priority q = Some (case r of Inl e \<Rightarrow> Inl e | Inr u \<Rightarrow> Inr Undefined, q2)"
      using e s by (simp add: popPush_def pop_empty)
    with s show "\<exists>r q2. push key priority q = Some (r, q2) \<and>
               popPush key priority q =
                 Some (case r of Inl e \<Rightarrow> Inl e | Inr u \<Rightarrow> Inr Undefined, q2)"
      by blast
  }
qed

theorem popPush_is_pop_then_push_witness:
  "reachable example_full \<and> 0 < length' example_full \<and>
   length' example_full = capacity' example_full \<and>
   (\<exists>x q1 q2. pop example_full = Some (x, q1) \<and> push (Fin 3) (Fin 4) q1 = Some (Inr (), q2) \<and>
      popPush (Fin 3) (Fin 4) example_full = Some (Inr x, q2)) \<and>
   (case popPush (Fin 3) (Fin 4) example_full of
      None \<Rightarrow> None
    | Some (r, q) \<Rightarrow> map_option (\<lambda>d. (r, size_q q, fst d)) (dumpRawPriorities q)) =
     Some (Inr (Num (Fin 1)), 2, Inr ''[4 5]'')"
proof -
  have h: "0 < length' example_full" "length' example_full = capacity' example_full"
    by (simp_all add: example_full_def)
  have e: "(case popPush (Fin 3) (Fin 4) example_full of
      None \<Rightarrow> None
    | Some (r, q) \<Rightarrow> map_option (\<lambda>d. (r, size_q q, fst d)) (dumpRawPriorities q)) =
     Some (Inr (Num (Fin 1)), 2, Inr ''[4 5]'')"
    by code_simp
  note t = popPush_is_pop_then_push [OF example_full_reachable, of "Fin 3" "Fin 4"]
  show ?thesis
    using example_full_reachable h e t [THEN conjunct2, THEN conjunct1, rule_format, OF h(1)]
    by (intro conjI)
qed

lemma copy_loop_slice:
  assumes "length ks = length ps" "length ks \<le> c"
    and "length (keys' q0) = c + 1" "length (priorities' q0) = c + 1"
  shows "take (length ks)
           (drop ROOT_INDEX (zip (keys' (copy_loop ks ps 0 q0)) (priorities' (copy_loop ks ps 0 q0)))) =
         map (stored_in q0) (zip ks ps)"
proof -
  define n where "n = length ks"
  define qc where "qc = copy_loop ks ps 0 q0"
  let ?Z = "zip (keys' qc) (priorities' qc)"
  have l: "length (keys' qc) = c + 1" "length (priorities' qc) = c + 1"
    using copy_loop_frame [of ks ps 0 q0] assms(3,4) by (simp_all add: qc_def)
  have nth: "keys' qc ! m = store (keysType' q0) (Num (ks ! (m - 1))) \<and>
             priorities' qc ! m = store (prioritiesType' q0) (Num (ps ! (m - 1)))"
    if "1 \<le> m" "m \<le> n" for m
    using copy_loop_nth [of ks ps q0 0 m] assms that by (simp add: qc_def n_def)
  have "1 + n \<le> length ?Z" using l assms(2) by (simp add: n_def)
  then have "take n (drop 1 ?Z) = map ((!) ?Z) [1..<1 + n]" by (rule slice_map)
  also have "\<dots> = map (stored_in q0) (zip ks ps)"
  proof (rule nth_equalityI)
    have "length [1..<1 + n] = n" by (simp only: length_upt add_diff_cancel_left')
    then show "length (map ((!) ?Z) [1..<1 + n]) = length (map (stored_in q0) (zip ks ps))"
      using assms by (simp only: length_map length_zip n_def min.idem)
  next
    fix i assume "i < length (map ((!) ?Z) [1..<1 + n])"
    then have i: "i < n" by (simp del: upt_Suc)
    then have "?Z ! (1 + i) = stored_in q0 (ks ! i, ps ! i)"
      using nth [of "1 + i"] l assms by (simp add: stored_in_def n_def)
    then show "map ((!) ?Z) [1..<1 + n] ! i = map (stored_in q0) (zip ks ps) ! i"
      using i assms by (simp add: n_def del: upt_Suc)
  qed
  finally show ?thesis by (simp add: n_def qc_def ROOT_INDEX_def)
qed

lemma bulk_example:
  "(case constructor 100 [Fin 1, Fin 2] [Fin 50, Fin 1] Uint32Array Uint32Array of
      Some (Inr q) \<Rightarrow> map_option (\<lambda>r. (size_q q, fst r)) (peek q)
    | _ \<Rightarrow> None) = Some (2, Num (Fin 2))"
  by code_simp

text \<open>
  C8, as the code has it. With a capacity \<open>c\<close> below \<open>2 ^ 31\<close> and batches \<open>keys\<close>,
  \<open>priorities\<close> of one length \<open>n <= c\<close> the constructor copies the pairs, as the two
  arrays store them, into positions \<open>1..n\<close>, sets the size to \<open>n\<close>, and bubbles down every
  index from \<open>n >>> 1\<close> down to the root. The content is then the given pairs as stored and
  \<open>peek()\<close> returns the key at the root. When no given priority is stored as NaN, heap
  order holds and the priority of that key is \<open><=\<close> every live priority.
  \<open>new MinQueue(100, [1, 2], [50, 1])\<close> has size 2 and \<open>peek()\<close> returns 2.
\<close>

theorem bulk_construction:
  assumes "length ks = length ps" and "length ks \<le> c" and "c < 2 ^ 31"
  shows "(let q0 = \<lparr>capacity' = c, keysType' = kt,
                    keys' = replicate (c + ROOT_INDEX) (Fin 0), prioritiesType' = pt,
                    priorities' = replicate (c + ROOT_INDEX) (Fin 0), length' = 0,
                    hasPoppedElement' = False\<rparr>;
              qc = copy_loop ks ps 0 q0
          in take (length ks) (drop ROOT_INDEX (zip (keys' qc) (priorities' qc))) =
               map (stored_in q0) (zip ks ps) \<and>
             constructor c ks ps kt pt =
               heapify_loop (shr1 (length ks)) (qc\<lparr>length' := length ks\<rparr>) \<bind>
               (\<lambda>q. Some (Inr q))) \<and>
         (\<exists>q. constructor c ks ps kt pt = Some (Inr q) \<and> size_q q = length ks \<and>
            mset (live_pairs q) = mset (map (stored_in q) (zip ks ps)) \<and>
            ((\<forall>p \<in> set ps. store pt (Num p) \<noteq> NaN) \<longrightarrow> heap_ok q) \<and>
            (0 < length ks \<longrightarrow>
               (\<exists>kp. peek q = Some (fst (as_read kp), q) \<and> kp \<in> set (live_pairs q) \<and>
                  ((\<forall>p \<in> set ps. store pt (Num p) \<noteq> NaN) \<longrightarrow>
                     (\<forall>x \<in> set (live_pairs q). num_le (snd kp) (snd x)))))) \<and>
         (case constructor 100 [Fin 1, Fin 2] [Fin 50, Fin 1] Uint32Array Uint32Array of
            Some (Inr q) \<Rightarrow> map_option (\<lambda>r. (size_q q, fst r)) (peek q)
          | _ \<Rightarrow> None) = Some (2, Num (Fin 2))"
proof (intro conjI)
  let ?q0 = "\<lparr>capacity' = c, keysType' = kt,
                    keys' = replicate (c + ROOT_INDEX) (Fin 0), prioritiesType' = pt,
                    priorities' = replicate (c + ROOT_INDEX) (Fin 0), length' = 0,
                    hasPoppedElement' = False\<rparr>"
  show "let q0 = ?q0; qc = copy_loop ks ps 0 q0
          in take (length ks) (drop ROOT_INDEX (zip (keys' qc) (priorities' qc))) =
               map (stored_in q0) (zip ks ps) \<and>
             constructor c ks ps kt pt =
               heapify_loop (shr1 (length ks)) (qc\<lparr>length' := length ks\<rparr>) \<bind>
               (\<lambda>q. Some (Inr q))"
    unfolding Let_def
  proof
    show "take (length ks) (drop ROOT_INDEX
            (zip (keys' (copy_loop ks ps 0 ?q0)) (priorities' (copy_loop ks ps 0 ?q0)))) =
          map (stored_in ?q0) (zip ks ps)"
      by (rule copy_loop_slice [OF assms(1,2)]) (simp_all add: ROOT_INDEX_def)
  next
    show "constructor c ks ps kt pt =
        heapify_loop (shr1 (length ks)) ((copy_loop ks ps 0 ?q0)\<lparr>length' := length ks\<rparr>) \<bind>
        (\<lambda>q. Some (Inr q))"
      using assms(1,2) by (simp add: constructor_def Let_def)
  qed
next
  from constructor_spec [OF assms(1,2), of kt pt]
  obtain q where r: "constructor c ks ps kt pt = Some (Inr q)" "wfq q"
      "\<not> hasPoppedElement' q" "length' q = length ks" "prioritiesType' q = pt"
      "mset (live_pairs q) = mset (map (stored_in q) (zip ks ps))"
      "(\<forall>p \<in> set ps. store pt (Num p) \<noteq> NaN) \<longrightarrow> heap_ok q \<and> nan_free q"
    by blast
  have pk: "\<exists>kp. peek q = Some (fst (as_read kp), q) \<and> kp \<in> set (live_pairs q) \<and>
                  ((\<forall>p \<in> set ps. store pt (Num p) \<noteq> NaN) \<longrightarrow>
                     (\<forall>x \<in> set (live_pairs q). num_le (snd kp) (snd x)))"
    if ne: "0 < length ks"
  proof -
    have ne': "0 < length' q" using ne r(4) by simp
    note c = clean_root [OF r(2,3) ne']
    let ?kp = "(keys' q ! 1, priorities' q ! 1)"
    have a: "peek q = Some (fst (as_read ?kp), q)"
      using removePoppedElement_clean [OF r(3)] c(2) by (simp add: peek_def as_read_def)
    have b: "?kp \<in> set (live_pairs q)" using c(1) by simp
    have "\<forall>x \<in> set (live_pairs q). num_le (snd ?kp) (snd x)"
      if n: "\<forall>p \<in> set ps. store pt (Num p) \<noteq> NaN"
    proof
      fix x assume x: "x \<in> set (live_pairs q)"
      have h: "heap_ok q" "nan_free q" using r(7) n by simp_all
      have "snd x \<in> snd ` set (live_pairs q)" "snd ?kp \<in> snd ` set (live_pairs q)"
        using x b by (auto intro: imageI simp del: snd_conv)
      then have "snd x \<noteq> NaN" "snd ?kp \<noteq> NaN" using h(2) unfolding nan_free_def by metis+
      moreover have "snd ?kp \<le> snd x" using c(6) [OF h(1)] x by simp
      ultimately show "num_le (snd ?kp) (snd x)" by (simp add: num_cmp_nonan)
    qed
    with a b show ?thesis by blast
  qed
  have ho: "(\<forall>p \<in> set ps. store pt (Num p) \<noteq> NaN) \<longrightarrow> heap_ok q" using r(7) by simp
  show "\<exists>q. constructor c ks ps kt pt = Some (Inr q) \<and> size_q q = length ks \<and>
            mset (live_pairs q) = mset (map (stored_in q) (zip ks ps)) \<and>
            ((\<forall>p \<in> set ps. store pt (Num p) \<noteq> NaN) \<longrightarrow> heap_ok q) \<and>
            (0 < length ks \<longrightarrow>
               (\<exists>kp. peek q = Some (fst (as_read kp), q) \<and> kp \<in> set (live_pairs q) \<and>
                  ((\<forall>p \<in> set ps. store pt (Num p) \<noteq> NaN) \<longrightarrow>
                     (\<forall>x \<in> set (live_pairs q). num_le (snd kp) (snd x)))))"
    apply (rule exI [where x = q])
    using r(1,4,6) ho pk by (simp add: size_q_def)
next
  show "(case constructor 100 [Fin 1, Fin 2] [Fin 50, Fin 1] Uint32Array Uint32Array of
            Some (Inr q) \<Rightarrow> map_option (\<lambda>r. (size_q q, fst r)) (peek q)
          | _ \<Rightarrow> None) = Some (2, Num (Fin 2))"
    by (rule bulk_example)
qed

theorem bulk_construction_witness:
  "length [Fin 1, Fin 2] = length [Fin 50, Fin 1] \<and> length [Fin 1, Fin 2] \<le> (100::nat) \<and>
   (100::nat) < 2 ^ 31 \<and>
   store Float64Array (Num (Fin 50)) \<noteq> NaN \<and> store Float64Array (Num (Fin 1)) \<noteq> NaN \<and>
   0 < length [Fin 1, Fin 2] \<and>
   (\<exists>q. constructor 100 [Fin 1, Fin 2] [Fin 50, Fin 1] Uint32Array Float64Array = Some (Inr q) \<and>
      size_q q = length [Fin 1, Fin 2] \<and>
      mset (live_pairs q) = mset (map (stored_in q) (zip [Fin 1, Fin 2] [Fin 50, Fin 1])) \<and>
      heap_ok q \<and>
      (\<exists>kp. peek q = Some (fst (as_read kp), q) \<and> kp \<in> set (live_pairs q) \<and>
         (\<forall>x \<in> set (live_pairs q). num_le (snd kp) (snd x))))"
proof -
  have a: "length [Fin 1, Fin 2] = length [Fin 50, Fin 1]"
    and b: "length [Fin 1, Fin 2] \<le> (100::nat)" and c: "(100::nat) < 2 ^ 31"
    and p: "0 < length [Fin 1, Fin 2]"
    by simp_all
  have n: "\<forall>p \<in> set [Fin 50, Fin 1]. store Float64Array (Num p) \<noteq> NaN" by code_simp
  have n': "store Float64Array (Num (Fin 50)) \<noteq> NaN" "store Float64Array (Num (Fin 1)) \<noteq> NaN"
    by code_simp+
  note t = bulk_construction [OF a b c, of Uint32Array Float64Array]
  show ?thesis
    using a b c n n' p t [THEN conjunct2, THEN conjunct1] by blast
qed

text \<open>
  C8 as stated fails where a given priority is NaN.
  \<open>new MinQueue(3, [1, 2, 3], [5, NaN, 1], Uint32Array, Float64Array)\<close> succeeds and
  leaves the priorities \<open>NaN, 5, 1\<close> in positions 1 to 3: heap order does not hold, and
  \<open>peek()\<close> returns key 2, whose priority NaN is not \<open><=\<close> the priority 1 of key 3.
\<close>

theorem bulk_construction_with_nan:
  "length [Fin 1, Fin 2, Fin 3] = length [Fin 5, NaN, Fin 1] \<and>
   length [Fin 1, Fin 2, Fin 3] \<le> (3::nat) \<and>
   constructor 3 [Fin 1, Fin 2, Fin 3] [Fin 5, NaN, Fin 1] Uint32Array Float64Array =
     Some (Inr example_bulk_nan) \<and>
   \<not> heap_ok example_bulk_nan \<and>
   peek example_bulk_nan = Some (Num (Fin 2), example_bulk_nan) \<and>
   live_pairs example_bulk_nan = [(Fin 2, NaN), (Fin 1, Fin 5), (Fin 3, Fin 1)] \<and>
   \<not> num_le NaN (Fin 1)"
  by code_simp

end
